theory Spec2Isabelle
  imports Complex_Main "HOL-Library.Word" "HOL-Library.Multiset"
begin

section \<open>Doubles\<close>

text \<open>
  The C++ type \<^verbatim>\<open>double\<close>. A finite value is a real number, the two infinities and
  NaN are values of their own. Rounding, overflow to infinity and the sign of zero are
  not modelled: arithmetic on finite values is exact. The comparisons are those of
  IEEE 754: every comparison with NaN is false, except \<^verbatim>\<open>!=\<close>, which is true.
\<close>

datatype double = Val real | PosInf | NegInf | NaN

fun dle :: "double \<Rightarrow> double \<Rightarrow> bool" where
  "dle (Val a) (Val b) = (a \<le> b)"
| "dle (Val a) PosInf = True"
| "dle (Val a) NegInf = False"
| "dle PosInf (Val b) = False"
| "dle PosInf PosInf = True"
| "dle PosInf NegInf = False"
| "dle NegInf (Val b) = True"
| "dle NegInf PosInf = True"
| "dle NegInf NegInf = True"
| "dle NaN y = False"
| "dle x NaN = False"

fun dlt :: "double \<Rightarrow> double \<Rightarrow> bool" where
  "dlt (Val a) (Val b) = (a < b)"
| "dlt (Val a) PosInf = True"
| "dlt (Val a) NegInf = False"
| "dlt PosInf y = False"
| "dlt NegInf (Val b) = True"
| "dlt NegInf PosInf = True"
| "dlt NegInf NegInf = False"
| "dlt NaN y = False"
| "dlt x NaN = False"

definition dgt :: "double \<Rightarrow> double \<Rightarrow> bool" where
  "dgt x y = dlt y x"

fun deq :: "double \<Rightarrow> double \<Rightarrow> bool" where
  "deq (Val a) (Val b) = (a = b)"
| "deq PosInf PosInf = True"
| "deq NegInf NegInf = True"
| "deq x y = False"

definition dne :: "double \<Rightarrow> double \<Rightarrow> bool" where
  "dne x y = (\<not> deq x y)"

fun dneg :: "double \<Rightarrow> double" where
  "dneg (Val a) = Val (- a)"
| "dneg PosInf = NegInf"
| "dneg NegInf = PosInf"
| "dneg NaN = NaN"

fun dadd :: "double \<Rightarrow> double \<Rightarrow> double" where
  "dadd (Val a) (Val b) = Val (a + b)"
| "dadd NaN y = NaN"
| "dadd x NaN = NaN"
| "dadd PosInf NegInf = NaN"
| "dadd NegInf PosInf = NaN"
| "dadd PosInf y = PosInf"
| "dadd NegInf y = NegInf"
| "dadd (Val a) y = y"

definition dsub :: "double \<Rightarrow> double \<Rightarrow> double" where
  "dsub x y = dadd x (dneg y)"

text \<open>The sign of a value that is not NaN: \<open>-1\<close>, \<open>0\<close> or \<open>1\<close>.\<close>

fun dsign :: "double \<Rightarrow> real" where
  "dsign (Val a) = sgn a"
| "dsign PosInf = 1"
| "dsign NegInf = - 1"
| "dsign NaN = 0"

definition inf_of_sign :: "real \<Rightarrow> double" where
  "inf_of_sign s = (if s = 0 then NaN else if 0 < s then PosInf else NegInf)"

fun dmul :: "double \<Rightarrow> double \<Rightarrow> double" where
  "dmul (Val a) (Val b) = Val (a * b)"
| "dmul NaN y = NaN"
| "dmul x NaN = NaN"
| "dmul x y = inf_of_sign (dsign x * dsign y)"

text \<open>
  Division: a finite value divided by zero is an infinity of the dividend's sign (zero
  counts as positive zero), \<open>0 / 0\<close> and \<open>\<infinity> / \<infinity>\<close> are NaN, a finite value
  divided by an infinity is zero.
\<close>

fun ddiv :: "double \<Rightarrow> double \<Rightarrow> double" where
  "ddiv (Val a) (Val b) = (if b = 0 then inf_of_sign (sgn a) else Val (a / b))"
| "ddiv NaN y = NaN"
| "ddiv x NaN = NaN"
| "ddiv (Val a) y = Val 0"
| "ddiv x (Val b) = inf_of_sign (dsign x * (if b < 0 then - 1 else 1))"
| "ddiv x y = NaN"

definition double_of_nat :: "nat \<Rightarrow> double" where
  "double_of_nat n = Val (real n)"

section \<open>Failures\<close>

text \<open>
  What stops a C++ call before it returns: \<open>OutOfRange\<close> is the exception
  \<^verbatim>\<open>std::out_of_range\<close> of \<^verbatim>\<open>vector::at\<close>, \<open>RuntimeError\<close> is
  \<^verbatim>\<open>std::runtime_error\<close>, and \<open>Undefined\<close> stands for an access the language or
  Eigen leaves undefined (an unchecked index outside the vector, an Eigen coefficient or
  size precondition that does not hold, an integer division by zero).
\<close>

datatype error = OutOfRange | RuntimeError | Undefined

fun ebind :: "error + 'a \<Rightarrow> ('a \<Rightarrow> error + 'b) \<Rightarrow> error + 'b" where
  "ebind (Inl e) f = Inl e"
| "ebind (Inr x) f = f x"

text \<open>\<^verbatim>\<open>v[i]\<close>, \<^verbatim>\<open>v.at(i)\<close> and \<^verbatim>\<open>v[i] = x\<close> on a \<^verbatim>\<open>std::vector\<close>.\<close>

definition idx :: "'a list \<Rightarrow> nat \<Rightarrow> error + 'a" where
  "idx xs i = (if i < length xs then Inr (xs ! i) else Inl Undefined)"

definition vec_at :: "'a list \<Rightarrow> nat \<Rightarrow> error + 'a" where
  "vec_at xs i = (if i < length xs then Inr (xs ! i) else Inl OutOfRange)"

definition upd :: "'a list \<Rightarrow> nat \<Rightarrow> 'a \<Rightarrow> error + 'a list" where
  "upd xs i x = (if i < length xs then Inr (xs[i := x]) else Inl Undefined)"

section \<open>Eigen vectors and matrices, observations, data\<close>

text \<open>
  An \<^verbatim>\<open>Eigen::VectorXd\<close> is the list of its coefficients; an
  \<^verbatim>\<open>Eigen::MatrixXd\<close> is the list of its rows (so a matrix without rows has no
  columns either).
\<close>

type_synonym vector = "double list"
type_synonym matrix = "double list list"

definition nrows :: "matrix \<Rightarrow> nat" where
  "nrows m = length m"

definition ncols :: "matrix \<Rightarrow> nat" where
  "ncols m = (case m of [] \<Rightarrow> 0 | r # _ \<Rightarrow> length r)"

text \<open>\<^verbatim>\<open>m(i, j)\<close>: Eigen requires the coefficient to exist.\<close>

definition mat_coeff :: "matrix \<Rightarrow> nat \<Rightarrow> nat \<Rightarrow> error + double" where
  "mat_coeff m i j = ebind (idx m i) (\<lambda>r. idx r j)"

text \<open>Observations.cpp: one matrix per role, a row per sample.\<close>

record observations =
  observations_by_type :: "matrix list"
  num_samples :: nat

definition OUTCOME :: nat where
  "OUTCOME = 0"

definition TREATMENT :: nat where
  "TREATMENT = 1"

definition INSTRUMENT :: nat where
  "INSTRUMENT = 2"

text \<open>
  \<^verbatim>\<open>Observations::get(type, sample)\<close> returns \<^verbatim>\<open>observations_by_type[type].row(sample)\<close>
  as a vector. Neither index is checked.
\<close>

definition obs_get :: "observations \<Rightarrow> nat \<Rightarrow> nat \<Rightarrow> error + vector" where
  "obs_get obs type sample =
     ebind (idx (observations_by_type obs) type) (\<lambda>m. idx m sample)"

text \<open>
  The class \<^verbatim>\<open>Data\<close> is declared outside the sources at hand; the trainer reads a cell
  with \<^verbatim>\<open>get(row, col)\<close> and asks for the number of columns and rows.
\<close>

record data =
  data_get :: "nat \<Rightarrow> nat \<Rightarrow> double"
  get_num_cols :: nat
  get_num_rows :: nat

section \<open>The tree trainer\<close>

text \<open>
  The four parallel arrays \<^verbatim>\<open>TreeTrainer::train\<close> builds (\<^verbatim>\<open>nodes\<close> is called
  \<^verbatim>\<open>samples\<close> in \<^verbatim>\<open>split_node\<close>).
\<close>

record tree_arrays =
  child_nodes :: "nat list list"
  samples :: "nat list list"
  split_vars :: "nat list"
  split_values :: "double list"

text \<open>
  \<^verbatim>\<open>TreeOptions\<close> is declared outside the sources at hand; the trainer only calls its
  getters, which are the fields here.
\<close>

record tree_options =
  get_mtry :: nat
  get_min_node_size :: nat
  get_split_select_weights :: "double list"
  get_split_select_vars :: "nat list"
  get_deterministic_vars :: "nat list"
  get_no_split_variables :: "nat list"
  get_honesty :: bool

text \<open>
  \<^verbatim>\<open>RandomSampler\<close> is declared outside the sources at hand. A sampler is a state
  \<open>'r\<close> together with the four operations the trainer calls; each returns what it
  wrote to its output parameters and the next state. Universal statements about the
  trainer hold for every such sampler, that is for every random draw.
\<close>

record 'r random_sampler =
  sample_poisson :: "nat \<Rightarrow> 'r \<Rightarrow> nat \<times> 'r"
  draw_without_replacement_skip ::
    "nat list \<Rightarrow> nat \<Rightarrow> nat list \<Rightarrow> nat \<Rightarrow> 'r \<Rightarrow> nat list \<times> 'r"
  draw_without_replacement_weighted ::
    "nat list \<Rightarrow> nat list \<Rightarrow> nat \<Rightarrow> double list \<Rightarrow> 'r \<Rightarrow> nat list \<times> 'r"
  subsample :: "nat list \<Rightarrow> double \<Rightarrow> 'r \<Rightarrow> (nat list \<times> nat list) \<times> 'r"

text \<open>
  The relabeling strategy and the splitting rule are interfaces implemented outside the
  sources at hand. \<^verbatim>\<open>relabel\<close> returns the map from sample to response as an
  association list; \<^verbatim>\<open>find_best_split\<close> returns its result together with the two
  arrays it received by reference.
\<close>

type_synonym responses = "(nat \<times> vector) list"

text \<open>
  Modelled from the spec: \<^verbatim>\<open>PredictionValues\<close> is declared outside the sources at
  hand. It is the triple of the summary matrices per node (no matrix for a node without a
  summary), the number of nodes and the number of types.
\<close>

record prediction_values =
  pv_values :: "matrix list list"
  pv_num_nodes :: nat
  pv_num_types :: nat

text \<open>
  The members of \<^verbatim>\<open>TreeTrainer\<close>. The splitting rule is the one the factory creates;
  the prediction strategy may be \<^verbatim>\<open>NULL\<close>, and the trainer calls only its
  \<^verbatim>\<open>precompute_prediction_values\<close>.
\<close>

record tree_trainer =
  relabel :: "nat list \<Rightarrow> observations \<Rightarrow> responses"
  find_best_split ::
    "nat \<Rightarrow> nat list \<Rightarrow> responses \<Rightarrow> nat list list \<Rightarrow> nat list \<Rightarrow> double list
      \<Rightarrow> bool \<times> nat list \<times> double list"
  prediction_strategy ::
    "(nat list list \<Rightarrow> observations \<Rightarrow> error + prediction_values) option"
  options :: tree_options

text \<open>The calls to collaborators that a run makes, in order.\<close>

datatype event = CallRelabel nat | CallFindBestSplit nat | CallRepopulate

text \<open>
  \<^verbatim>\<open>create_empty_node\<close> pushes one entry on every array; \<^verbatim>\<open>child_nodes[0]\<close> and
  \<^verbatim>\<open>child_nodes[1]\<close> must exist.
\<close>

definition create_empty_node :: "tree_arrays \<Rightarrow> error + tree_arrays" where
  "create_empty_node a =
     ebind (idx (child_nodes a) 0) (\<lambda>c0.
     ebind (upd (child_nodes a) 0 (c0 @ [0])) (\<lambda>cn.
     ebind (idx cn 1) (\<lambda>c1.
     ebind (upd cn 1 (c1 @ [0])) (\<lambda>cn'.
       Inr (a\<lparr>child_nodes := cn',
               samples := samples a @ [[]],
               split_vars := split_vars a @ [0],
               split_values := split_values a @ [Val 0]\<rparr>)))))"

text \<open>
  The purity loop of \<^verbatim>\<open>split_node_internal\<close> over the node's samples from position
  \<open>i\<close> on, with the \<^verbatim>\<open>pure_value\<close> of the previous round: \<open>Inr False\<close> is the
  \<^verbatim>\<open>break\<close> with \<^verbatim>\<open>pure = false\<close>.
\<close>

fun pure_loop :: "observations \<Rightarrow> nat list \<Rightarrow> nat \<Rightarrow> double \<Rightarrow> error + bool" where
  "pure_loop obs [] i pure_value = Inr True"
| "pure_loop obs (sample # rest) i pure_value =
     ebind (obs_get obs OUTCOME sample) (\<lambda>v.
     ebind (idx v 0) (\<lambda>v0.
       if i \<noteq> 0 \<and> dne v0 pure_value then Inr False
       else pure_loop obs rest (Suc i) v0))"

text \<open>
  \<^verbatim>\<open>split_node_internal\<close>: the result is the returned flag, the two arrays written
  and the collaborators called.
\<close>

definition split_node_internal ::
  "tree_trainer \<Rightarrow> nat \<Rightarrow> observations \<Rightarrow> nat list \<Rightarrow> nat list list \<Rightarrow> nat list \<Rightarrow> double list
    \<Rightarrow> error + (bool \<times> nat list \<times> double list \<times> event list)" where
  "split_node_internal T node obs possible_split_vars smp svars svals =
     ebind (idx smp node) (\<lambda>node_samples.
       if length node_samples \<le> get_min_node_size (options T) then
         ebind (upd svals node (Val (- 1))) (\<lambda>svals'. Inr (True, svars, svals', []))
       else
         ebind (pure_loop obs node_samples 0 (Val 0)) (\<lambda>pure.
           if pure then
             ebind (upd svals node (Val (- 1))) (\<lambda>svals'. Inr (True, svars, svals', []))
           else
             let responses_by_sample = relabel T node_samples obs in
             if responses_by_sample = [] then
               ebind (upd svals node (Val (- 1))) (\<lambda>svals'.
                 Inr (True, svars, svals', [CallRelabel node]))
             else
               case find_best_split T node possible_split_vars responses_by_sample
                      smp svars svals of
                 (stop, svars', svals') \<Rightarrow>
                   if stop then
                     ebind (upd svals' node (Val (- 1))) (\<lambda>svals''.
                       Inr (True, svars', svals'',
                            [CallRelabel node, CallFindBestSplit node]))
                   else
                     Inr (False, svars', svals',
                          [CallRelabel node, CallFindBestSplit node])))"

text \<open>
  \<^verbatim>\<open>size_t\<close> subtraction wraps around at \<open>2 ^ 64\<close>.
\<close>

definition size_t_sub :: "nat \<Rightarrow> nat \<Rightarrow> nat" where
  "size_t_sub a b = (a + 2 ^ 64 - b mod 2 ^ 64) mod 2 ^ 64"

text \<open>
  \<^verbatim>\<open>create_split_variable_subset\<close>: \<open>result\<close> is the vector the caller passes in,
  the value returned is that vector afterwards together with the sampler's next state.
\<close>

definition create_split_variable_subset ::
  "'r random_sampler \<Rightarrow> tree_options \<Rightarrow> nat list \<Rightarrow> data \<Rightarrow> double list \<Rightarrow> 'r
    \<Rightarrow> nat list \<times> 'r" where
  "create_split_variable_subset S opts result d split_select_weights r =
     (let result1 = result @ get_deterministic_vars opts;
          num_independent_variables =
            size_t_sub (get_num_cols d) (length (get_no_split_variables opts))
      in case sample_poisson S (get_mtry opts) r of
           (mtry_sample, r1) \<Rightarrow>
             let split_mtry = max (min mtry_sample num_independent_variables) 1 in
             if split_select_weights = [] then
               draw_without_replacement_skip S result1 (get_num_cols d)
                 (get_no_split_variables opts) split_mtry r1
             else if split_mtry > length result1 then
               draw_without_replacement_weighted S result1 (get_split_select_vars opts)
                 (split_mtry - length result1) split_select_weights r1
             else (result1, r1))"

text \<open>\<^verbatim>\<open>v[k][i] = x\<close> and \<^verbatim>\<open>v[k].push_back(x)\<close> on a vector of vectors.\<close>

definition upd2 :: "'a list list \<Rightarrow> nat \<Rightarrow> nat \<Rightarrow> 'a \<Rightarrow> error + 'a list list" where
  "upd2 xss k i x =
     ebind (idx xss k) (\<lambda>xs. ebind (upd xs i x) (\<lambda>xs'. upd xss k xs'))"

definition push_back_at :: "'a list list \<Rightarrow> nat \<Rightarrow> 'a \<Rightarrow> error + 'a list list" where
  "push_back_at xss k x = ebind (idx xss k) (\<lambda>xs. upd xss k (xs @ [x]))"

text \<open>
  The last loop of \<^verbatim>\<open>split_node\<close>: every sample of the node goes to the left child
  when \<^verbatim>\<open>data->get(sample, split_var) <= split_value\<close>, to the right child otherwise.
\<close>

fun assign_samples ::
  "data \<Rightarrow> nat \<Rightarrow> double \<Rightarrow> nat \<Rightarrow> nat \<Rightarrow> nat list \<Rightarrow> nat list list \<Rightarrow> error + nat list list" where
  "assign_samples d split_var split_value left_child_node right_child_node [] smp = Inr smp"
| "assign_samples d split_var split_value left_child_node right_child_node (sample # rest) smp =
     (if dle (data_get d sample split_var) split_value then
        ebind (push_back_at smp left_child_node sample)
          (assign_samples d split_var split_value left_child_node right_child_node rest)
      else
        ebind (push_back_at smp right_child_node sample)
          (assign_samples d split_var split_value left_child_node right_child_node rest))"

text \<open>
  \<^verbatim>\<open>split_node\<close>: the returned flag, the arrays, the sampler's next state and the
  collaborators called.
\<close>

definition split_node ::
  "'r random_sampler \<Rightarrow> tree_trainer \<Rightarrow> nat \<Rightarrow> data \<Rightarrow> observations \<Rightarrow> tree_arrays
    \<Rightarrow> double list \<Rightarrow> 'r \<Rightarrow> error + (bool \<times> tree_arrays \<times> 'r \<times> event list)" where
  "split_node S T node d obs a split_select_weights r =
     (case create_split_variable_subset S (options T) [] d split_select_weights r of
        (possible_split_vars, r') \<Rightarrow>
     ebind (split_node_internal T node obs possible_split_vars
              (samples a) (split_vars a) (split_values a)) (\<lambda>(stop, svars, svals, ev).
       let a1 = a\<lparr>split_vars := svars, split_values := svals\<rparr> in
       if stop then Inr (True, a1, r', ev)
       else
         ebind (idx svars node) (\<lambda>split_var.
         ebind (idx svals node) (\<lambda>split_value.
         let left_child_node = length (samples a1) in
         ebind (upd2 (child_nodes a1) 0 node left_child_node) (\<lambda>cn.
         ebind (create_empty_node (a1\<lparr>child_nodes := cn\<rparr>)) (\<lambda>a2.
         let right_child_node = length (samples a2) in
         ebind (upd2 (child_nodes a2) 1 node right_child_node) (\<lambda>cn'.
         ebind (create_empty_node (a2\<lparr>child_nodes := cn'\<rparr>)) (\<lambda>a3.
         ebind (idx (samples a3) node) (\<lambda>node_samples.
         ebind (assign_samples d split_var split_value left_child_node right_child_node
                  node_samples (samples a3)) (\<lambda>smp.
           Inr (False, a3\<lparr>samples := smp\<rparr>, r', ev)))))))))))"

text \<open>
  The \<^verbatim>\<open>while (num_open_nodes > 0)\<close> loop of \<^verbatim>\<open>train\<close>. Nothing bounds the number
  of rounds (a splitting rule may keep splitting), so the loop takes fuel: \<open>None\<close> is a
  run that has not left the loop when the fuel is used up.
\<close>

fun grow_loop ::
  "nat \<Rightarrow> 'r random_sampler \<Rightarrow> tree_trainer \<Rightarrow> data \<Rightarrow> observations \<Rightarrow> nat \<Rightarrow> nat
    \<Rightarrow> tree_arrays \<Rightarrow> 'r \<Rightarrow> event list \<Rightarrow> (error + tree_arrays \<times> 'r \<times> event list) option" where
  "grow_loop 0 S T d obs num_open_nodes i a r evs = None"
| "grow_loop (Suc fuel) S T d obs num_open_nodes i a r evs =
     (if num_open_nodes > 0 then
        (case split_node S T i d obs a (get_split_select_weights (options T)) r of
           Inl e \<Rightarrow> Some (Inl e)
         | Inr (is_leaf_node, a', r', ev) \<Rightarrow>
             if is_leaf_node then
               grow_loop fuel S T d obs (num_open_nodes - 1) (Suc i) a' r' (evs @ ev)
             else
               (case upd (samples a') i [] of
                  Inl e \<Rightarrow> Some (Inl e)
                | Inr smp \<Rightarrow>
                    grow_loop fuel S T d obs (Suc num_open_nodes) (Suc i)
                      (a'\<lparr>samples := smp\<rparr>) r' (evs @ ev)))
      else Some (Inr (a, r, evs)))"

text \<open>
  Modelled from the spec: the class \<^verbatim>\<open>Tree\<close> is declared outside the sources at hand.
  Its fields are the constructor's arguments in \<^verbatim>\<open>train\<close>; \<^verbatim>\<open>get_leaf_samples\<close>,
  \<^verbatim>\<open>set_leaf_nodes\<close> and \<^verbatim>\<open>set_prediction_values\<close> read and write the fields
  \<open>leaf_nodes\<close> and \<open>tree_prediction_values\<close>.
\<close>

record tree =
  root_node :: nat
  tree_child_nodes :: "nat list list"
  leaf_nodes :: "nat list list"
  tree_split_vars :: "nat list"
  tree_split_values :: "double list"
  oob_samples :: "nat list"
  tree_prediction_values :: prediction_values

text \<open>
  The two methods of \<^verbatim>\<open>Tree\<close> that compute something, \<^verbatim>\<open>find_leaf_nodes\<close> and
  \<^verbatim>\<open>prune_empty_leaves\<close>, are parameters of the model.
\<close>

record tree_ops =
  find_leaf_nodes :: "tree \<Rightarrow> data \<Rightarrow> nat list \<Rightarrow> nat list"
  prune_empty_leaves :: "tree \<Rightarrow> tree"

definition empty_prediction_values :: prediction_values where
  "empty_prediction_values = \<lparr>pv_values = [], pv_num_nodes = 0, pv_num_types = 0\<rparr>"

text \<open>The loop of \<^verbatim>\<open>repopulate_leaf_nodes\<close>; both accesses are \<^verbatim>\<open>at\<close>.\<close>

fun repopulate_loop :: "nat list \<Rightarrow> nat list \<Rightarrow> nat list list \<Rightarrow> error + nat list list" where
  "repopulate_loop found [] new_leaf_nodes = Inr new_leaf_nodes"
| "repopulate_loop found (sample # rest) new_leaf_nodes =
     ebind (vec_at found sample) (\<lambda>leaf_node.
     ebind (vec_at new_leaf_nodes leaf_node) (\<lambda>xs.
       repopulate_loop found rest (new_leaf_nodes[leaf_node := xs @ [sample]])))"

definition repopulate_leaf_nodes :: "tree_ops \<Rightarrow> tree \<Rightarrow> data \<Rightarrow> nat list \<Rightarrow> error + tree" where
  "repopulate_leaf_nodes ops t d leaf_samples =
     (let num_nodes = length (leaf_nodes t);
          new_leaf_nodes = replicate num_nodes [];
          found = find_leaf_nodes ops t d leaf_samples
      in ebind (repopulate_loop found leaf_samples new_leaf_nodes) (\<lambda>new_leaf_nodes'.
           Inr (prune_empty_leaves ops (t\<lparr>leaf_nodes := new_leaf_nodes'\<rparr>))))"

text \<open>
  \<^verbatim>\<open>train\<close> up to the end of the loop (\<open>grow_tree\<close> below): the root node, the
  honesty subsample, the loop. The result carries the held-out samples
  \<^verbatim>\<open>new_leaf_samples\<close>.
\<close>

definition initial_arrays :: tree_arrays where
  "initial_arrays = \<lparr>child_nodes = [[], []], samples = [], split_vars = [], split_values = []\<rparr>"

text \<open>
  The honesty step: with honesty the sampler splits the samples into those of the root
  node and the held-out \<^verbatim>\<open>new_leaf_samples\<close>; without it the root node takes all
  samples and \<^verbatim>\<open>new_leaf_samples\<close> stays empty.
\<close>

definition honesty_split ::
  "'r random_sampler \<Rightarrow> tree_trainer \<Rightarrow> 'r \<Rightarrow> nat list \<Rightarrow> (nat list \<times> nat list) \<times> 'r" where
  "honesty_split S T r smpls =
     (if get_honesty (options T) then subsample S smpls (Val (1 / 2)) r
      else ((smpls, []), r))"

definition grow_tree ::
  "nat \<Rightarrow> 'r random_sampler \<Rightarrow> tree_trainer \<Rightarrow> data \<Rightarrow> observations \<Rightarrow> 'r \<Rightarrow> nat list
    \<Rightarrow> (error + (tree_arrays \<times> nat list) \<times> 'r \<times> event list) option" where
  "grow_tree fuel S T d obs r smpls =
     (case create_empty_node initial_arrays of
        Inl e \<Rightarrow> Some (Inl e)
      | Inr a0 \<Rightarrow>
          (case honesty_split S T r smpls of
             ((root_samples, new_leaf_samples), r0) \<Rightarrow>
               (case upd (samples a0) 0 root_samples of
                  Inl e \<Rightarrow> Some (Inl e)
                | Inr smp \<Rightarrow>
                    (case grow_loop fuel S T d obs 1 0 (a0\<lparr>samples := smp\<rparr>) r0 [] of
                       None \<Rightarrow> None
                     | Some (Inl e) \<Rightarrow> Some (Inl e)
                     | Some (Inr (a, r1, evs)) \<Rightarrow>
                         Some (Inr ((a, new_leaf_samples), r1, evs))))))"

definition tree_of_arrays :: "tree_arrays \<Rightarrow> tree" where
  "tree_of_arrays a =
     \<lparr>root_node = 0, tree_child_nodes = child_nodes a, leaf_nodes = samples a,
      tree_split_vars = split_vars a, tree_split_values = split_values a,
      oob_samples = [], tree_prediction_values = empty_prediction_values\<rparr>"

text \<open>\<^verbatim>\<open>train\<close> from the construction of the tree on.\<close>

definition finish_tree ::
  "tree_trainer \<Rightarrow> tree_ops \<Rightarrow> data \<Rightarrow> observations \<Rightarrow> tree_arrays \<Rightarrow> nat list
    \<Rightarrow> error + tree \<times> event list" where
  "finish_tree T ops d obs a new_leaf_samples =
     ebind (if new_leaf_samples \<noteq> [] then
              ebind (repopulate_leaf_nodes ops (tree_of_arrays a) d new_leaf_samples)
                (\<lambda>t. Inr (t, [CallRepopulate]))
            else Inr (tree_of_arrays a, [])) (\<lambda>(t, ev).
     ebind (case prediction_strategy T of
              None \<Rightarrow> Inr empty_prediction_values
            | Some precompute \<Rightarrow> precompute (leaf_nodes t) obs) (\<lambda>pv.
       Inr (t\<lparr>tree_prediction_values := pv\<rparr>, ev)))"

definition train ::
  "nat \<Rightarrow> 'r random_sampler \<Rightarrow> tree_trainer \<Rightarrow> tree_ops \<Rightarrow> data \<Rightarrow> observations \<Rightarrow> 'r \<Rightarrow> nat list
    \<Rightarrow> (error + tree \<times> 'r \<times> event list) option" where
  "train fuel S T ops d obs r smpls =
     (case grow_tree fuel S T d obs r smpls of
        None \<Rightarrow> None
      | Some (Inl e) \<Rightarrow> Some (Inl e)
      | Some (Inr ((a, new_leaf_samples), r1, evs)) \<Rightarrow>
          Some (ebind (finish_tree T ops d obs a new_leaf_samples) (\<lambda>(t, ev).
            Inr (t, r1, evs @ ev))))"

section \<open>Prediction values and predictions\<close>

text \<open>
  A counted loop \<^verbatim>\<open>for (i = 0; i < n; ++i)\<close> whose body may fail is \<open>efold\<close> of
  the body over \<open>[0..<n]\<close>; a range-based loop is \<open>efold\<close> over the container.
\<close>

fun efold :: "('a \<Rightarrow> 's \<Rightarrow> error + 's) \<Rightarrow> 'a list \<Rightarrow> 's \<Rightarrow> error + 's" where
  "efold f [] s = Inr s"
| "efold f (x # xs) s = ebind (f x s) (efold f xs)"

text \<open>The C++ type \<^verbatim>\<open>uint\<close>.\<close>

type_synonym uint = "32 word"

text \<open>
  Modelled from the spec: the accessors of \<^verbatim>\<open>PredictionValues\<close>, which is declared
  outside the sources at hand. \<^verbatim>\<open>empty(node)\<close> is true when the node has no summary
  matrix; \<^verbatim>\<open>get(node, type)\<close> is the node's matrix of that type;
  \<^verbatim>\<open>get_values(node)\<close> is the list of the node's matrices. A node or type outside the
  container raises \<^verbatim>\<open>std::out_of_range\<close>.
\<close>

definition pv_empty :: "prediction_values \<Rightarrow> nat \<Rightarrow> error + bool" where
  "pv_empty pv node = ebind (vec_at (pv_values pv) node) (\<lambda>vs. Inr (vs = []))"

definition pv_get :: "prediction_values \<Rightarrow> nat \<Rightarrow> nat \<Rightarrow> error + matrix" where
  "pv_get pv node type = ebind (vec_at (pv_values pv) node) (\<lambda>vs. vec_at vs type)"

definition pv_get_values :: "prediction_values \<Rightarrow> nat \<Rightarrow> error + matrix list" where
  "pv_get_values pv node = vec_at (pv_values pv) node"

text \<open>
  Modelled from the spec: \<^verbatim>\<open>Prediction\<close>, declared outside the sources at hand, is a
  point vector together with a variance vector, which is empty when the prediction is
  built from the point vector alone; \<^verbatim>\<open>size()\<close> is the length of the point vector.
\<close>

record prediction =
  predictions :: vector
  variance_estimates :: vector

definition prediction_size :: "prediction \<Rightarrow> nat" where
  "prediction_size p = length (predictions p)"

text \<open>
  The Eigen operations the prediction code uses. \<^verbatim>\<open>Zero(r, c)\<close> and
  \<^verbatim>\<open>Constant(n, x)\<close> build a matrix and a vector; \<^verbatim>\<open>a += b\<close> requires \<open>a\<close> and
  \<open>b\<close> to have the same numbers of rows and columns (Eigen asserts it, and leaves the
  result undefined when assertions are off); a vector operand is a matrix of one column;
  \<^verbatim>\<open>m / k\<close> divides every coefficient; \<^verbatim>\<open>mat << e\<close> on a fresh \<open>r \<times> c\<close> matrix
  requires \<open>e\<close> to fill it.
\<close>

definition mat_zero :: "nat \<Rightarrow> nat \<Rightarrow> matrix" where
  "mat_zero r c = replicate r (replicate c (Val 0))"

definition vec_constant :: "nat \<Rightarrow> double \<Rightarrow> vector" where
  "vec_constant n x = replicate n x"

definition col_matrix :: "vector \<Rightarrow> matrix" where
  "col_matrix v = map (\<lambda>x. [x]) v"

definition mat_add_assign :: "matrix \<Rightarrow> matrix \<Rightarrow> error + matrix" where
  "mat_add_assign a b =
     (if nrows a = nrows b \<and> ncols a = ncols b then Inr (map2 (map2 dadd) a b)
      else Inl Undefined)"

definition mat_div_scalar :: "matrix \<Rightarrow> double \<Rightarrow> matrix" where
  "mat_div_scalar m k = map (map (\<lambda>x. ddiv x k)) m"

definition comma_init :: "nat \<Rightarrow> nat \<Rightarrow> matrix \<Rightarrow> error + matrix" where
  "comma_init r c e = (if nrows e = r \<and> ncols e = c then Inr e else Inl Undefined)"

section \<open>The regression prediction strategy\<close>

definition prediction_length :: nat where
  "prediction_length = 4"

definition prediction_value_length :: nat where
  "prediction_value_length = 4"

text \<open>\<^verbatim>\<open>predict\<close> returns the averaged outcome matrix.\<close>

definition predict :: "matrix list \<Rightarrow> error + matrix" where
  "predict average = vec_at average OUTCOME"

text \<open>
  \<^verbatim>\<open>compute_variance\<close>. The first inner loop decides whether the group starting at
  leaf \<open>base\<close> is good: no leaf slot of the group is empty.
\<close>

definition good_group :: "prediction_values \<Rightarrow> nat \<Rightarrow> uint \<Rightarrow> error + bool" where
  "good_group leaf_values base ci_group_size =
     efold (\<lambda>j good. ebind (pv_empty leaf_values (base + j)) (\<lambda>e.
              Inr (if e then False else good)))
       [0..<unat ci_group_size] True"

text \<open>
  The second inner loop adds \<open>psi_1 * psi_1\<close> to \<^verbatim>\<open>psi_squared\<close> and \<open>psi_1\<close> to
  \<^verbatim>\<open>group_psi\<close> for every leaf of the group.
\<close>

definition group_sums ::
  "prediction_values \<Rightarrow> nat \<Rightarrow> uint \<Rightarrow> double \<Rightarrow> double \<Rightarrow> error + double \<times> double" where
  "group_sums leaf_values base ci_group_size average_outcome psi_squared =
     efold (\<lambda>j (psi_squared, group_psi).
              ebind (pv_get leaf_values (base + j) OUTCOME) (\<lambda>m.
              ebind (mat_coeff m 0 0) (\<lambda>x.
                let psi_1 = dsub x average_outcome in
                Inr (dadd psi_squared (dmul psi_1 psi_1), dadd group_psi psi_1))))
       [0..<unat ci_group_size] (psi_squared, Val 0)"

text \<open>
  The sums of the outer loop: \<^verbatim>\<open>num_good_groups\<close>, \<^verbatim>\<open>psi_squared\<close> and
  \<^verbatim>\<open>psi_grouped_squared\<close>. The number of groups is an integer division, undefined
  for a group size of zero.
\<close>

record variance_sums =
  num_good_groups :: double
  psi_squared :: double
  psi_grouped_squared :: double

definition group_step ::
  "prediction_values \<Rightarrow> uint \<Rightarrow> double \<Rightarrow> nat \<Rightarrow> variance_sums \<Rightarrow> error + variance_sums" where
  "group_step leaf_values ci_group_size average_outcome group_index acc =
     ebind (good_group leaf_values (group_index * unat ci_group_size) ci_group_size) (\<lambda>good.
       if \<not> good then Inr acc
       else
         ebind (group_sums leaf_values (group_index * unat ci_group_size) ci_group_size
                  average_outcome (psi_squared acc)) (\<lambda>(psi_squared', group_psi).
           let group_psi' = ddiv group_psi (double_of_nat (unat ci_group_size)) in
           Inr \<lparr>num_good_groups = dadd (num_good_groups acc) (Val 1),
                psi_squared = psi_squared',
                psi_grouped_squared =
                  dadd (psi_grouped_squared acc) (dmul group_psi' group_psi')\<rparr>))"

definition compute_sums :: "prediction_values \<Rightarrow> uint \<Rightarrow> double \<Rightarrow> error + variance_sums" where
  "compute_sums leaf_values ci_group_size average_outcome =
     (if ci_group_size = 0 then Inl Undefined
      else
        efold (group_step leaf_values ci_group_size average_outcome)
          [0..<pv_num_nodes leaf_values div unat ci_group_size]
          \<lparr>num_good_groups = Val 0, psi_squared = Val 0, psi_grouped_squared = Val 0\<rparr>)"

text \<open>The three quantities computed after the loop.\<close>

definition var_between :: "variance_sums \<Rightarrow> double" where
  "var_between acc = ddiv (psi_grouped_squared acc) (num_good_groups acc)"

definition var_total :: "variance_sums \<Rightarrow> uint \<Rightarrow> double" where
  "var_total acc ci_group_size =
     ddiv (psi_squared acc)
       (dmul (num_good_groups acc) (double_of_nat (unat ci_group_size)))"

definition group_noise :: "variance_sums \<Rightarrow> uint \<Rightarrow> double" where
  "group_noise acc ci_group_size =
     ddiv (dsub (var_total acc ci_group_size) (var_between acc))
       (double_of_nat (unat (ci_group_size - 1)))"

text \<open>
  \<^verbatim>\<open>compute_variance\<close>. The Bayes debiaser is declared outside the sources at hand and
  is the parameter \<open>debias\<close>.
\<close>

definition compute_variance ::
  "(double \<Rightarrow> double \<Rightarrow> double \<Rightarrow> double) \<Rightarrow> matrix list \<Rightarrow> prediction_values \<Rightarrow> uint
    \<Rightarrow> error + vector" where
  "compute_variance debias average leaf_values ci_group_size =
     ebind (vec_at average OUTCOME) (\<lambda>m.
     ebind (mat_coeff m 0 0) (\<lambda>average_outcome.
     ebind (compute_sums leaf_values ci_group_size average_outcome) (\<lambda>acc.
       let var_debiased =
             debias (var_between acc) (group_noise acc ci_group_size) (num_good_groups acc)
       in Inr (vec_constant 1 var_debiased))))"

text \<open>
  \<^verbatim>\<open>precompute_prediction_values\<close>. For a leaf with samples the accumulator is
  \<^verbatim>\<open>Zero(1, 4)\<close>, every sample's outcome vector is added to it, and the quotient by the
  number of samples is written to a \<open>1 \<times> 4\<close> matrix.
\<close>

definition leaf_average :: "observations \<Rightarrow> nat list \<Rightarrow> error + matrix" where
  "leaf_average obs leaf_node =
     ebind (efold (\<lambda>sample average.
                     ebind (obs_get obs OUTCOME sample) (\<lambda>v.
                       mat_add_assign average (col_matrix v)))
              leaf_node (mat_zero 1 4)) (\<lambda>average.
       comma_init 1 4 (mat_div_scalar average (double_of_nat (length leaf_node))))"

definition precompute_prediction_values ::
  "nat list list \<Rightarrow> observations \<Rightarrow> error + prediction_values" where
  "precompute_prediction_values leaf_samples obs =
     (let num_leaves = length leaf_samples in
      ebind (efold (\<lambda>i vals.
                      ebind (vec_at leaf_samples i) (\<lambda>leaf_node.
                        if leaf_node = [] then Inr vals
                        else
                          ebind (leaf_average obs leaf_node) (\<lambda>mat.
                            upd vals i [mat])))
               [0..<num_leaves] (replicate num_leaves [])) (\<lambda>vals.
        Inr \<lparr>pv_values = vals, pv_num_nodes = num_leaves, pv_num_types = 1\<rparr>))"

section \<open>The optimized prediction collector\<close>

text \<open>
  The interface \<^verbatim>\<open>OptimizedPredictionStrategy\<close>, as far as the collector calls it.
\<close>

record strategy =
  strategy_prediction_length :: nat
  strategy_predict :: "matrix list \<Rightarrow> error + vector"
  strategy_compute_variance :: "matrix list \<Rightarrow> prediction_values \<Rightarrow> uint \<Rightarrow> error + vector"
  strategy_prediction_value_length :: nat

text \<open>
  Modelled from the spec: \<^verbatim>\<open>Forest\<close> is declared outside the sources at hand; the
  collector reads its trees and each tree's prediction values.
\<close>

record forest =
  get_trees :: "tree list"

text \<open>\<^verbatim>\<open>add_prediction_values\<close>, with \<^verbatim>\<open>combined_average\<close> passed and returned.\<close>

definition add_prediction_values ::
  "nat \<Rightarrow> prediction_values \<Rightarrow> matrix list \<Rightarrow> error + matrix list" where
  "add_prediction_values node pv combined_average =
     ebind (if combined_average = [] then
              efold (\<lambda>type ca.
                       ebind (pv_get pv node type) (\<lambda>prototype.
                         upd ca type (mat_zero (nrows prototype) (ncols prototype))))
                [0..<pv_num_types pv] (replicate (pv_num_types pv) [])
            else Inr combined_average) (\<lambda>ca.
       efold (\<lambda>type ca.
                ebind (pv_get pv node type) (\<lambda>v.
                ebind (idx ca type) (\<lambda>m.
                ebind (mat_add_assign m v) (\<lambda>m'. upd ca type m'))))
         [0..<pv_num_types pv] ca)"

definition normalize_prediction_values :: "nat \<Rightarrow> matrix list \<Rightarrow> matrix list" where
  "normalize_prediction_values num_leaves combined_average =
     map (\<lambda>m. mat_div_scalar m (double_of_nat num_leaves)) combined_average"

text \<open>\<^verbatim>\<open>validate_prediction\<close> throws \<^verbatim>\<open>std::runtime_error\<close> or returns.\<close>

definition validate_prediction :: "strategy \<Rightarrow> nat \<Rightarrow> prediction \<Rightarrow> error + unit" where
  "validate_prediction S sample p =
     (if prediction_size p \<noteq> strategy_prediction_length S then Inl RuntimeError else Inr ())"

text \<open>
  The test at the head of the loop over the trees: the tree is skipped when a mask is
  given and \<^verbatim>\<open>trees_by_sample[sample][tree_index]\<close> is false.
\<close>

definition tree_included :: "bool list list \<Rightarrow> nat \<Rightarrow> nat \<Rightarrow> error + bool" where
  "tree_included trees_by_sample sample tree_index =
     (if trees_by_sample = [] then Inr True
      else ebind (idx trees_by_sample sample) (\<lambda>row. idx row tree_index))"

text \<open>
  The state of the loop over the trees: \<^verbatim>\<open>num_leaves\<close>, \<^verbatim>\<open>average_value\<close>,
  \<^verbatim>\<open>leaf_values\<close>.
\<close>

definition visit_tree ::
  "uint \<Rightarrow> forest \<Rightarrow> nat list list \<Rightarrow> bool list list \<Rightarrow> nat \<Rightarrow> nat
    \<Rightarrow> uint \<times> matrix list \<times> matrix list list \<Rightarrow> error + uint \<times> matrix list \<times> matrix list list" where
  "visit_tree ci_group_size f leaf_nodes_by_tree trees_by_sample sample tree_index st =
     (case st of (num_leaves, average_value, leaf_values) \<Rightarrow>
        ebind (tree_included trees_by_sample sample tree_index) (\<lambda>included.
          if \<not> included then Inr st
          else
            ebind (vec_at leaf_nodes_by_tree tree_index) (\<lambda>leaf_nodes.
            ebind (vec_at leaf_nodes sample) (\<lambda>node.
            ebind (idx (get_trees f) tree_index) (\<lambda>t.
            ebind (pv_empty (tree_prediction_values t) node) (\<lambda>e.
              if e then Inr st
              else
                ebind (add_prediction_values node (tree_prediction_values t) average_value)
                  (\<lambda>average_value'.
                    if ci_group_size > 1 then
                      ebind (pv_get_values (tree_prediction_values t) node) (\<lambda>vs.
                      ebind (upd leaf_values tree_index vs) (\<lambda>leaf_values'.
                        Inr (num_leaves + 1, average_value', leaf_values')))
                    else Inr (num_leaves + 1, average_value', leaf_values))))))))"

text \<open>The body of the loop over the query rows: the prediction for one row.\<close>

definition predict_row ::
  "strategy \<Rightarrow> uint \<Rightarrow> forest \<Rightarrow> nat list list \<Rightarrow> bool list list \<Rightarrow> nat \<Rightarrow> error + prediction" where
  "predict_row S ci_group_size f leaf_nodes_by_tree trees_by_sample sample =
     (let num_trees = length (get_trees f);
          leaf_values0 = (if ci_group_size > 1 then replicate num_trees [] else [])
      in
      ebind (efold (visit_tree ci_group_size f leaf_nodes_by_tree trees_by_sample sample)
               [0..<num_trees] (0, [], leaf_values0))
        (\<lambda>(num_leaves, average_value, leaf_values).
          if num_leaves = 0 then
            Inr \<lparr>predictions = vec_constant (strategy_prediction_length S) NaN,
                 variance_estimates = []\<rparr>
          else
            let average_value' = normalize_prediction_values (unat num_leaves) average_value in
            ebind (strategy_predict S average_value') (\<lambda>point_prediction.
            ebind (if ci_group_size > 1 then
                     strategy_compute_variance S average_value'
                       \<lparr>pv_values = leaf_values, pv_num_nodes = num_trees,
                        pv_num_types = strategy_prediction_value_length S\<rparr> ci_group_size
                   else Inr []) (\<lambda>variance_estimate.
              let p = \<lparr>predictions = point_prediction,
                       variance_estimates = variance_estimate\<rparr> in
              ebind (validate_prediction S sample p) (\<lambda>_. Inr p)))))"

definition collect_predictions ::
  "strategy \<Rightarrow> uint \<Rightarrow> forest \<Rightarrow> data \<Rightarrow> nat list list \<Rightarrow> bool list list
    \<Rightarrow> error + prediction list" where
  "collect_predictions S ci_group_size f prediction_data leaf_nodes_by_tree trees_by_sample =
     efold (\<lambda>sample ps.
              ebind (predict_row S ci_group_size f leaf_nodes_by_tree trees_by_sample sample)
                (\<lambda>p. Inr (ps @ [p])))
       [0..<get_num_rows prediction_data] []"

section \<open>Notions the properties are stated with\<close>

text \<open>
  The outcome scalar of a sample, \<^verbatim>\<open>observations.get(Observations::OUTCOME, s)[0]\<close>.
\<close>

definition outcome_scalar :: "observations \<Rightarrow> nat \<Rightarrow> error + double" where
  "outcome_scalar obs sample = ebind (obs_get obs OUTCOME sample) (\<lambda>v. idx v 0)"

text \<open>
  The children of a node and the comparison its split makes, read off the arrays:
  \<^verbatim>\<open>child_nodes[0][node]\<close>, \<^verbatim>\<open>child_nodes[1][node]\<close>, and
  \<^verbatim>\<open>data->get(s, split_vars[node]) <= split_values[node]\<close> (respectively \<^verbatim>\<open>>\<close>).
\<close>

definition left_child :: "tree_arrays \<Rightarrow> nat \<Rightarrow> nat" where
  "left_child a node = child_nodes a ! 0 ! node"

definition right_child :: "tree_arrays \<Rightarrow> nat \<Rightarrow> nat" where
  "right_child a node = child_nodes a ! 1 ! node"

definition feature_le :: "data \<Rightarrow> tree_arrays \<Rightarrow> nat \<Rightarrow> nat \<Rightarrow> bool" where
  "feature_le d a node s = dle (data_get d s (split_vars a ! node)) (split_values a ! node)"

definition feature_gt :: "data \<Rightarrow> tree_arrays \<Rightarrow> nat \<Rightarrow> nat \<Rightarrow> bool" where
  "feature_gt d a node s = dgt (data_get d s (split_vars a ! node)) (split_values a ! node)"

text \<open>
  The arrays \<^verbatim>\<open>split_node\<close> leaves behind when it splits \<open>node\<close>, given the arrays
  \<open>svars\<close> and \<open>svals\<close> that \<^verbatim>\<open>split_node_internal\<close> returned: two nodes are
  appended, the node's entries in \<^verbatim>\<open>child_nodes\<close> point to them, and they hold the
  node's samples with the comparison true and false, in the node's order.
\<close>

definition children_of :: "data \<Rightarrow> nat \<Rightarrow> tree_arrays \<Rightarrow> nat list \<Rightarrow> double list \<Rightarrow> tree_arrays" where
  "children_of d node a svars svals =
     \<lparr>child_nodes =
        (child_nodes a)
          [0 := (child_nodes a ! 0)[node := length (samples a)] @ [0, 0],
           1 := (child_nodes a ! 1 @ [0])[node := Suc (length (samples a))] @ [0]],
      samples =
        samples a @
          [filter (\<lambda>s. dle (data_get d s (svars ! node)) (svals ! node)) (samples a ! node),
           filter (\<lambda>s. \<not> dle (data_get d s (svars ! node)) (svals ! node)) (samples a ! node)],
      split_vars = svars @ [0, 0],
      split_values = svals @ [Val 0, Val 0]\<rparr>"

text \<open>
  A node is internal when \<^verbatim>\<open>split_node\<close> has given it children: one of its two
  entries in \<^verbatim>\<open>child_nodes\<close> is not \<open>0\<close> (node \<open>0\<close> is the root, so no child has
  id \<open>0\<close>). The nodes below a node \<open>n\<close> are \<open>n\<close> itself and the children of the
  internal nodes below it.
\<close>

definition internal :: "tree_arrays \<Rightarrow> nat \<Rightarrow> bool" where
  "internal a n \<longleftrightarrow> n < length (samples a) \<and> \<not> (left_child a n = 0 \<and> right_child a n = 0)"

inductive below :: "tree_arrays \<Rightarrow> nat \<Rightarrow> nat \<Rightarrow> bool" for a :: tree_arrays and n :: nat where
  below_self: "below a n n"
| below_left: "below a n m \<Longrightarrow> internal a m \<Longrightarrow> below a n (left_child a m)"
| below_right: "below a n m \<Longrightarrow> internal a m \<Longrightarrow> below a n (right_child a m)"

code_pred below .

text \<open>
  The splitting rule receives \<^verbatim>\<open>split_vars\<close> and \<^verbatim>\<open>split_values\<close> by reference.
  A rule writes only its own node when, whatever it is called with, the two arrays it
  leaves behind differ from the ones it received at most in the entry of the node it was
  asked to split.
\<close>

definition writes_own_node :: "tree_trainer \<Rightarrow> bool" where
  "writes_own_node T \<longleftrightarrow>
     (\<forall>node vars resp smp svars svals.
        \<exists>v x. snd (find_best_split T node vars resp smp svars svals) =
                 (svars[node := v], svals[node := x]))"

text \<open>
  What holds of the arrays each time the loop of \<^verbatim>\<open>train\<close> is about to look at node
  \<open>i\<close>: the arrays have one entry per node, the nodes from \<open>i\<close> on have no children,
  the children of an internal node are two consecutive later nodes, and every sample
  held below the left child of an internal node passes the node's comparison
  \<^verbatim>\<open><=\<close>, every sample held below its right child fails it.
\<close>

definition grown :: "data \<Rightarrow> tree_arrays \<Rightarrow> nat \<Rightarrow> bool" where
  "grown d a i \<longleftrightarrow>
     2 \<le> length (child_nodes a) \<and> 1 \<le> length (samples a) \<and>
     length (child_nodes a ! 0) = length (samples a) \<and>
     length (child_nodes a ! 1) = length (samples a) \<and>
     length (split_vars a) = length (samples a) \<and>
     length (split_values a) = length (samples a) \<and>
     (\<forall>n. i \<le> n \<longrightarrow> \<not> internal a n) \<and>
     (\<forall>n. internal a n \<longrightarrow>
        n < left_child a n \<and> right_child a n = Suc (left_child a n) \<and>
        right_child a n < length (samples a)) \<and>
     (\<forall>n m s. internal a n \<longrightarrow> below a (left_child a n) m \<longrightarrow> s \<in> set (samples a ! m) \<longrightarrow>
        feature_le d a n s) \<and>
     (\<forall>n m s. internal a n \<longrightarrow> below a (right_child a n) m \<longrightarrow> s \<in> set (samples a ! m) \<longrightarrow>
        \<not> feature_le d a n s)"

text \<open>
  The spec's words for the number of candidate variables: a value clamped to the
  interval from \<open>lo\<close> to \<open>hi\<close>, and the number of independent variables
  \<open>num_cols - |no_split_variables|\<close> as a difference of natural numbers. The number of
  variables drawn is what \<^verbatim>\<open>create_split_variable_subset\<close> adds to the deterministic
  variables.
\<close>

definition clamp :: "nat \<Rightarrow> nat \<Rightarrow> nat \<Rightarrow> nat" where
  "clamp lo hi x = (if x < lo then lo else if hi < x then hi else x)"

definition num_independent_variables :: "data \<Rightarrow> tree_options \<Rightarrow> nat" where
  "num_independent_variables d opts = get_num_cols d - length (get_no_split_variables opts)"

definition num_drawn :: "'r random_sampler \<Rightarrow> tree_options \<Rightarrow> data \<Rightarrow> double list \<Rightarrow> 'r \<Rightarrow> nat" where
  "num_drawn S opts d w r =
     length (fst (create_split_variable_subset S opts [] d w r)) -
     length (get_deterministic_vars opts)"

text \<open>
  Modelled from the spec: the bodies of \<^verbatim>\<open>RandomSampler::draw_without_replacement_skip\<close>
  and \<^verbatim>\<open>RandomSampler::draw_without_replacement_weighted\<close> are outside the sources at
  hand. The spec has them draw the requested number of variables without replacement,
  the first among the columns that are not skipped, the second among the listed
  variables. A sampler draws as asked when each call appends exactly the \<open>k\<close>
  variables requested, provided that many are there to draw.
\<close>

definition draws_as_asked :: "'r random_sampler \<Rightarrow> bool" where
  "draws_as_asked S \<longleftrightarrow>
     (\<forall>result mx skip k r. k \<le> card ({0..<mx} - set skip) \<longrightarrow>
        length (fst (draw_without_replacement_skip S result mx skip k r)) = length result + k) \<and>
     (\<forall>result vars k w r. k \<le> length vars \<longrightarrow>
        length (fst (draw_without_replacement_weighted S result vars k w r)) = length result + k)"

text \<open>
  Whether the leaf a tree sends a query row to has no summary, read the way the collector
  reads it (\<^verbatim>\<open>leaf_nodes_by_tree.at(tree_index).at(sample)\<close>, then \<^verbatim>\<open>empty\<close>), and
  the placeholder prediction: a point vector of NaNs and no variance.
\<close>

definition leaf_summary_empty :: "forest \<Rightarrow> nat list list \<Rightarrow> nat \<Rightarrow> nat \<Rightarrow> error + bool" where
  "leaf_summary_empty f leaf_nodes_by_tree sample tree_index =
     ebind (vec_at leaf_nodes_by_tree tree_index) (\<lambda>leaf_nodes.
     ebind (vec_at leaf_nodes sample) (\<lambda>node.
     ebind (idx (get_trees f) tree_index) (\<lambda>t.
       pv_empty (tree_prediction_values t) node)))"

definition nan_prediction :: "strategy \<Rightarrow> prediction" where
  "nan_prediction S =
     \<lparr>predictions = replicate (strategy_prediction_length S) NaN, variance_estimates = []\<rparr>"

section \<open>Concrete inputs\<close>

text \<open>
  A sampler without randomness (the Poisson draw is its mean, the draws take the first
  candidates, the subsample is the first half), a relabeling strategy that returns the
  outcomes, and a splitting rule that splits on the first candidate variable at the value
  of the node's first sample.
\<close>

definition ex_sampler :: "unit random_sampler" where
  "ex_sampler =
     \<lparr>sample_poisson = (\<lambda>mean r. (mean, r)),
      draw_without_replacement_skip =
        (\<lambda>result mx skip k r. (result @ take k (filter (\<lambda>v. v \<notin> set skip) [0..<mx]), r)),
      draw_without_replacement_weighted = (\<lambda>result vars k w r. (result @ take k vars, r)),
      subsample =
        (\<lambda>ss fraction r. ((take (length ss div 2) ss, drop (length ss div 2) ss), r))\<rparr>"

definition ex_relabel :: "nat list \<Rightarrow> observations \<Rightarrow> responses" where
  "ex_relabel ss obs =
     map (\<lambda>s. (s, case obs_get obs OUTCOME s of Inl e \<Rightarrow> [] | Inr v \<Rightarrow> v)) ss"

definition ex_find_best_split ::
  "data \<Rightarrow> nat \<Rightarrow> nat list \<Rightarrow> responses \<Rightarrow> nat list list \<Rightarrow> nat list \<Rightarrow> double list
    \<Rightarrow> bool \<times> nat list \<times> double list" where
  "ex_find_best_split d node vars resp smp svars svals =
     (case vars of
        [] \<Rightarrow> (True, svars, svals)
      | v # _ \<Rightarrow>
          (case smp ! node of
             [] \<Rightarrow> (True, svars, svals)
           | s # _ \<Rightarrow> (False, svars[node := v], svals[node := data_get d s v])))"

definition ex_options :: "bool \<Rightarrow> nat \<Rightarrow> tree_options" where
  "ex_options honest m =
     \<lparr>get_mtry = 2, get_min_node_size = m, get_split_select_weights = [],
      get_split_select_vars = [], get_deterministic_vars = [],
      get_no_split_variables = [], get_honesty = honest\<rparr>"

definition ex_trainer :: "data \<Rightarrow> bool \<Rightarrow> nat \<Rightarrow> tree_trainer" where
  "ex_trainer d honest m =
     \<lparr>relabel = ex_relabel, find_best_split = ex_find_best_split d,
      prediction_strategy = None, options = ex_options honest m\<rparr>"

definition ex_data :: data where
  "ex_data = \<lparr>data_get = (\<lambda>row col. Val (real row)), get_num_cols = 1, get_num_rows = 4\<rparr>"

definition nan_data :: data where
  "nan_data =
     \<lparr>data_get = (\<lambda>row col. if row = 1 then NaN else Val (real row)),
      get_num_cols = 1, get_num_rows = 4\<rparr>"

definition ex_obs :: observations where
  "ex_obs = \<lparr>observations_by_type = [[[Val 1], [Val 2], [Val 3], [Val 4]]], num_samples = 4\<rparr>"

definition pure_obs :: observations where
  "pure_obs = \<lparr>observations_by_type = [replicate 6 [Val 7]], num_samples = 6\<rparr>"

definition ex_ops :: tree_ops where
  "ex_ops = \<lparr>find_leaf_nodes = (\<lambda>t d ss. []), prune_empty_leaves = (\<lambda>t. t)\<rparr>"

definition ex_arrays :: "nat list \<Rightarrow> tree_arrays" where
  "ex_arrays ss = \<lparr>child_nodes = [[0], [0]], samples = [ss], split_vars = [0], split_values = [Val 0]\<rparr>"

definition ex_split_result :: tree_arrays where
  "ex_split_result =
     \<lparr>child_nodes = [[1, 0, 0], [2, 0, 0]], samples = [[0, 1], [0], [1]],
      split_vars = [0, 0, 0], split_values = [Val 0, Val 0, Val 0]\<rparr>"

text \<open>
  The arrays and the trees that training on the example inputs produces, and tree
  operations that send every held-out sample to node \<open>0\<close> and prune nothing.
\<close>

definition ex_grown :: tree_arrays where
  "ex_grown =
     \<lparr>child_nodes = [[1, 0, 0], [2, 0, 0]], samples = [[], [0], [1]],
      split_vars = [0, 0, 0], split_values = [Val 0, Val (- 1), Val (- 1)]\<rparr>"

definition ex_ops2 :: tree_ops where
  "ex_ops2 = \<lparr>find_leaf_nodes = (\<lambda>t d ss. replicate (get_num_rows d) 0),
              prune_empty_leaves = (\<lambda>t. t)\<rparr>"

definition ex_tree :: tree where
  "ex_tree =
     \<lparr>root_node = 0, tree_child_nodes = [[1, 0, 0], [2, 0, 0]], leaf_nodes = [[], [0], [1]],
      tree_split_vars = [0, 0, 0], tree_split_values = [Val 0, Val (- 1), Val (- 1)],
      oob_samples = [], tree_prediction_values = empty_prediction_values\<rparr>"

definition ex_honest_tree :: tree where
  "ex_honest_tree =
     \<lparr>root_node = 0, tree_child_nodes = [[0], [0]], leaf_nodes = [[2, 3]],
      tree_split_vars = [0], tree_split_values = [Val (- 1)],
      oob_samples = [], tree_prediction_values = empty_prediction_values\<rparr>"

text \<open>
  The arrays that training on the samples \<open>[0, 1, 2]\<close> of the example produces: the
  root is split at \<open>0\<close>, its right child at \<open>1\<close>.
\<close>

definition ex_grown3 :: tree_arrays where
  "ex_grown3 =
     \<lparr>child_nodes = [[1, 0, 3, 0, 0], [2, 0, 4, 0, 0]], samples = [[], [0], [], [1], [2]],
      split_vars = [0, 0, 0, 0, 0],
      split_values = [Val 0, Val (- 1), Val 1, Val (- 1), Val (- 1)]\<rparr>"

text \<open>
  Inputs for the choice of candidate variables: data with a given number of columns,
  options that exclude column \<open>1\<close> from splitting, and options with split-select
  weights (one weight \<open>1\<close> per listed variable) and given deterministic variables.
\<close>

definition ex_data_cols :: "nat \<Rightarrow> data" where
  "ex_data_cols n = \<lparr>data_get = (\<lambda>row col. Val (real row)), get_num_cols = n, get_num_rows = 4\<rparr>"

definition ex_options_skip :: tree_options where
  "ex_options_skip =
     \<lparr>get_mtry = 2, get_min_node_size = 1, get_split_select_weights = [],
      get_split_select_vars = [], get_deterministic_vars = [],
      get_no_split_variables = [1], get_honesty = False\<rparr>"

definition ex_options_weighted :: "nat list \<Rightarrow> nat list \<Rightarrow> tree_options" where
  "ex_options_weighted dets vars =
     \<lparr>get_mtry = 2, get_min_node_size = 1, get_split_select_weights = map (\<lambda>v. Val 1) vars,
      get_split_select_vars = vars, get_deterministic_vars = dets,
      get_no_split_variables = [], get_honesty = False\<rparr>"

text \<open>
  Inputs of the prediction code: the averaged outcome \<open>0\<close> with four leaf summaries
  \<open>1, 1, -1, -1\<close> (two groups of two), the ten outcomes of the regression scenario, and
  a forest of one tree with a strategy that predicts the averaged outcome, queried on
  two rows of which the second is masked out.
\<close>

definition ex_average :: "matrix list" where
  "ex_average = [[[Val 0]]]"

definition ex_leaf_values :: prediction_values where
  "ex_leaf_values =
     \<lparr>pv_values = [[[[Val 1]]], [[[Val 1]]], [[[Val (- 1)]]], [[[Val (- 1)]]]],
      pv_num_nodes = 4, pv_num_types = 1\<rparr>"

definition ex_sums :: variance_sums where
  "ex_sums = \<lparr>num_good_groups = Val 2, psi_squared = Val 4, psi_grouped_squared = Val 2\<rparr>"

definition ex_outcomes :: observations where
  "ex_outcomes =
     \<lparr>observations_by_type =
        [[[Val (- 9.99984)], [Val (- 7.36924)], [Val 5.11211], [Val (- 0.826997)],
          [Val 0.655345], [Val (- 5.62082)], [Val (- 9.05911)], [Val 3.57729],
          [Val 3.58593], [Val 8.69386]]],
      num_samples = 10\<rparr>"

definition ex_strategy :: strategy where
  "ex_strategy =
     \<lparr>strategy_prediction_length = 1,
      strategy_predict = (\<lambda>average. ebind (vec_at average 0) (\<lambda>m. idx m 0)),
      strategy_compute_variance = (\<lambda>average leaf_values ci. Inr [Val 0]),
      strategy_prediction_value_length = 1\<rparr>"

definition ex_forest :: forest where
  "ex_forest =
     \<lparr>get_trees =
        [ex_tree\<lparr>tree_prediction_values :=
           \<lparr>pv_values = [[], [[[Val 1]]], [[[Val 3]]]], pv_num_nodes = 3, pv_num_types = 1\<rparr>\<rparr>]\<rparr>"

definition ex_query :: data where
  "ex_query = \<lparr>data_get = (\<lambda>row col. Val (real row)), get_num_cols = 1, get_num_rows = 2\<rparr>"

definition ex_leaf_nodes :: "nat list list" where
  "ex_leaf_nodes = [[1, 2]]"

definition ex_mask :: "bool list list" where
  "ex_mask = [[True], [False]]"

definition ex_predictions :: "prediction list" where
  "ex_predictions =
     [\<lparr>predictions = [Val 1], variance_estimates = []\<rparr>,
      \<lparr>predictions = [NaN], variance_estimates = []\<rparr>]"

section \<open>Properties of the split decision\<close>

lemma idx_Inr [simp]: "i < length xs \<Longrightarrow> idx xs i = Inr (xs ! i)"
  by (simp add: idx_def)

lemma upd_Inr [simp]: "i < length xs \<Longrightarrow> upd xs i x = Inr (xs[i := x])"
  by (simp add: upd_def)

text \<open>
  C7. A node with at most \<^verbatim>\<open>min_node_size\<close> samples is terminal:
  \<^verbatim>\<open>split_node_internal\<close> returns true and writes \<open>-1.0\<close> to
  \<^verbatim>\<open>split_values[node]\<close>, whatever the observations, the relabeling strategy and the
  splitting rule are; no collaborator is called.
\<close>

theorem C7_min_node_size_terminal:
  assumes "node < length smp" and "node < length svals"
    and "length (smp ! node) \<le> get_min_node_size (options T)"
  shows "split_node_internal T node obs psv smp svars svals =
           Inr (True, svars, svals[node := Val (- 1)], [])"
  using assms by (simp add: split_node_internal_def)

text \<open>
  With \<^verbatim>\<open>min_node_size = 5\<close> a node of exactly five samples is terminal.
\<close>

theorem C7_witness:
  "split_node_internal (ex_trainer ex_data False 5) 0 ex_obs [0] [[0, 1, 2, 3, 4]] [0] [Val 0] =
     Inr (True, [0], [Val (- 1)], [])"
  using C7_min_node_size_terminal [of 0 "[[0, 1, 2, 3, 4]]" "[Val 0]" "ex_trainer ex_data False 5"
      ex_obs "[0]" "[0]"]
  by (simp add: ex_trainer_def ex_options_def)

text \<open>
  Every comparison of the purity loop is between two values that are equal to a common
  value, so the loop never breaks.
\<close>

lemma deq_trans_sym: "deq x c \<Longrightarrow> deq y c \<Longrightarrow> deq x y"
  by (cases x; cases y; cases c) auto

lemma pure_loop_equal:
  assumes "\<forall>s\<in>set ss. \<exists>x. outcome_scalar obs s = Inr x \<and> deq x c"
    and "i \<noteq> 0 \<longrightarrow> deq pv c"
  shows "pure_loop obs ss i pv = Inr True"
  using assms
proof (induction ss arbitrary: i pv)
  case Nil
  then show ?case by simp
next
  case (Cons s ss)
  from Cons.prems(1) have "\<exists>x. outcome_scalar obs s = Inr x \<and> deq x c" by simp
  then obtain x where x: "outcome_scalar obs s = Inr x" "deq x c" by blast
  from x(1) obtain v where v: "obs_get obs OUTCOME s = Inr v" "idx v 0 = Inr x"
    unfolding outcome_scalar_def by (cases "obs_get obs OUTCOME s") simp_all
  have nd: "\<not> (i \<noteq> 0 \<and> dne x pv)"
    using Cons.prems(2) x(2) deq_trans_sym[of x c pv] by (auto simp: dne_def)
  have tl: "\<forall>s\<in>set ss. \<exists>x. outcome_scalar obs s = Inr x \<and> deq x c"
    using Cons.prems(1) by simp
  have "pure_loop obs ss (Suc i) x = Inr True"
    by (rule Cons.IH[OF tl]) (simp add: x(2))
  then show ?case using v nd by simp
qed

text \<open>
  C6. A node whose samples all have the same outcome scalar (equal in the sense of
  \<^verbatim>\<open>==\<close> to a common value \<open>c\<close>, so the common value is not NaN) is terminal:
  \<^verbatim>\<open>split_node_internal\<close> returns true, writes \<open>-1.0\<close> to
  \<^verbatim>\<open>split_values[node]\<close>, and calls neither the relabeling strategy nor
  \<^verbatim>\<open>find_best_split\<close> (the list of calls is empty).
\<close>

theorem C6_pure_node_terminal:
  assumes "node < length smp" and "node < length svals"
    and "\<forall>s\<in>set (smp ! node). \<exists>x. outcome_scalar obs s = Inr x \<and> deq x c"
  shows "split_node_internal T node obs psv smp svars svals =
           Inr (True, svars, svals[node := Val (- 1)], [])"
proof -
  have "pure_loop obs (smp ! node) 0 (Val 0) = Inr True"
    using assms(3) by (rule pure_loop_equal) simp
  then show ?thesis using assms(1,2) by (simp add: split_node_internal_def)
qed

text \<open>Six samples with outcome \<open>7.0\<close> and \<^verbatim>\<open>min_node_size = 1\<close>.\<close>

lemma pure_obs_scalar: "s < 6 \<Longrightarrow> outcome_scalar pure_obs s = Inr (Val 7)"
  by (simp add: outcome_scalar_def pure_obs_def obs_get_def OUTCOME_def)

theorem C6_witness:
  "split_node_internal (ex_trainer ex_data False 1) 0 pure_obs [0] [[0, 1, 2, 3, 4, 5]] [0] [Val 0] =
     Inr (True, [0], [Val (- 1)], [])"
  using C6_pure_node_terminal [of 0 "[[0, 1, 2, 3, 4, 5]]" "[Val 0]" pure_obs "Val 7"
      "ex_trainer ex_data False 1" "[0]" "[0]"]
  by (simp add: pure_obs_scalar)

section \<open>The partition made by a split\<close>

lemma ebind_eq_Inr: "ebind m f = Inr y \<longleftrightarrow> (\<exists>x. m = Inr x \<and> f x = Inr y)"
  by (cases m) simp_all

lemma idx_eq_Inr: "idx xs i = Inr x \<longleftrightarrow> i < length xs \<and> x = xs ! i"
  by (auto simp: idx_def)

lemma upd_eq_Inr: "upd xs i x = Inr ys \<longleftrightarrow> i < length xs \<and> ys = xs[i := x]"
  by (auto simp: upd_def)

lemma upd2_eq_Inr:
  "upd2 xss k i x = Inr yss \<longleftrightarrow>
     k < length xss \<and> i < length (xss ! k) \<and> yss = xss[k := (xss ! k)[i := x]]"
  by (auto simp: upd2_def ebind_eq_Inr idx_eq_Inr upd_eq_Inr)

lemma push_back_at_eq_Inr:
  "push_back_at xss k x = Inr yss \<longleftrightarrow> k < length xss \<and> yss = xss[k := xss ! k @ [x]]"
  by (auto simp: push_back_at_def ebind_eq_Inr idx_eq_Inr upd_eq_Inr)

lemma create_empty_node_eq_Inr:
  "create_empty_node a = Inr b \<longleftrightarrow>
     2 \<le> length (child_nodes a) \<and>
     b = a\<lparr>child_nodes := (child_nodes a)[0 := child_nodes a ! 0 @ [0], 1 := child_nodes a ! 1 @ [0]],
           samples := samples a @ [[]],
           split_vars := split_vars a @ [0],
           split_values := split_values a @ [Val 0]\<rparr>"
  by (auto simp: create_empty_node_def ebind_eq_Inr idx_eq_Inr upd_eq_Inr)

lemma assign_samples_eq:
  assumes "l < length smp" and "rt < length smp" and "l \<noteq> rt"
  shows "assign_samples d var val l rt ss smp =
           Inr (smp[l := smp ! l @ filter (\<lambda>s. dle (data_get d s var) val) ss,
                    rt := smp ! rt @ filter (\<lambda>s. \<not> dle (data_get d s var) val) ss])"
  using assms
proof (induction ss arbitrary: smp)
  case Nil
  then show ?case by simp
next
  case (Cons s ss)
  show ?case
  proof (cases "dle (data_get d s var) val")
    case True
    have "assign_samples d var val l rt (s # ss) smp =
            assign_samples d var val l rt ss (smp[l := smp ! l @ [s]])"
      using True Cons.prems by (simp add: push_back_at_def)
    also have "\<dots> = Inr ((smp[l := smp ! l @ [s]])
        [l := (smp[l := smp ! l @ [s]]) ! l @ filter (\<lambda>s. dle (data_get d s var) val) ss,
         rt := (smp[l := smp ! l @ [s]]) ! rt @ filter (\<lambda>s. \<not> dle (data_get d s var) val) ss])"
      using Cons.prems by (intro Cons.IH) simp_all
    finally show ?thesis using True Cons.prems by simp
  next
    case False
    have "assign_samples d var val l rt (s # ss) smp =
            assign_samples d var val l rt ss (smp[rt := smp ! rt @ [s]])"
      using False Cons.prems by (simp add: push_back_at_def)
    also have "\<dots> = Inr ((smp[rt := smp ! rt @ [s]])
        [l := (smp[rt := smp ! rt @ [s]]) ! l @ filter (\<lambda>s. dle (data_get d s var) val) ss,
         rt := (smp[rt := smp ! rt @ [s]]) ! rt @ filter (\<lambda>s. \<not> dle (data_get d s var) val) ss])"
      using Cons.prems by (intro Cons.IH) simp_all
    finally show ?thesis using False Cons.prems
      by (simp add: list_eq_iff_nth_eq nth_list_update)
  qed
qed

lemma not_dle_iff: "\<not> dle x y \<longleftrightarrow> dgt x y \<or> x = NaN \<or> y = NaN"
  by (cases x; cases y) (auto simp: dgt_def)

lemma split_node_internal_node_bound:
  assumes "split_node_internal T node obs psv smp svars svals = Inr x"
  shows "node < length smp"
  using assms unfolding split_node_internal_def
  by (cases "idx smp node") (simp_all add: idx_eq_Inr)

lemma upd01:
  "(C[0 := x, Suc 0 := y])[0 := x', Suc 0 := y'] = C[0 := x', Suc 0 := y']"
proof -
  have "C[0 := x, Suc 0 := y, 0 := x'] = C[0 := x, 0 := x', Suc 0 := y]"
    by (rule list_update_swap) simp
  then show ?thesis by simp
qed

lemma split_node_False:
  assumes "split_node S T node d obs a w r = Inr (False, a', r', ev)"
  obtains psv svars svals where
    "split_node_internal T node obs psv (samples a) (split_vars a) (split_values a) =
       Inr (False, svars, svals, ev)"
    and "node < length (samples a)" and "node < length svars" and "node < length svals"
    and "2 \<le> length (child_nodes a)"
    and "node < length (child_nodes a ! 0)" and "node \<le> length (child_nodes a ! 1)"
    and "a' = children_of d node a svars svals"
proof -
  obtain psv r0 where c: "create_split_variable_subset S (options T) [] d w r = (psv, r0)"
    by (cases "create_split_variable_subset S (options T) [] d w r")
  from assms c obtain x where
    x: "split_node_internal T node obs psv (samples a) (split_vars a) (split_values a) = Inr x"
    by (auto simp: split_node_def ebind_eq_Inr)
  obtain stop svars svals ev0 where xeq: "x = (stop, svars, svals, ev0)"
    by (cases x) auto
  have nb: "node < length (samples a)"
    using x by (rule split_node_internal_node_bound)
  have stop: "\<not> stop"
    using assms c x xeq by (auto simp: split_node_def simp del: idx_Inr upd_Inr)
  define a1 where "a1 = a\<lparr>split_vars := svars, split_values := svals\<rparr>"
  from assms c x xeq stop
  have chain: "ebind (idx svars node) (\<lambda>split_var.
         ebind (idx svals node) (\<lambda>split_value.
         ebind (upd2 (child_nodes a1) 0 node (length (samples a1))) (\<lambda>cn.
         ebind (create_empty_node (a1\<lparr>child_nodes := cn\<rparr>)) (\<lambda>a2.
         ebind (upd2 (child_nodes a2) 1 node (length (samples a2))) (\<lambda>cn'.
         ebind (create_empty_node (a2\<lparr>child_nodes := cn'\<rparr>)) (\<lambda>a3.
         ebind (idx (samples a3) node) (\<lambda>node_samples.
         ebind (assign_samples d split_var split_value (length (samples a1)) (length (samples a2))
                  node_samples (samples a3)) (\<lambda>smp.
           Inr (False, a3\<lparr>samples := smp\<rparr>, r0, ev0))))))))) = Inr (False, a', r', ev)"
    by (simp add: split_node_def a1_def Let_def del: idx_Inr upd_Inr)
  then obtain cn a2 cn' a3 smp where
    s1: "node < length svars" "node < length svals"
    and s2: "upd2 (child_nodes a1) 0 node (length (samples a1)) = Inr cn"
    and s3: "create_empty_node (a1\<lparr>child_nodes := cn\<rparr>) = Inr a2"
    and s4: "upd2 (child_nodes a2) 1 node (length (samples a2)) = Inr cn'"
    and s5: "create_empty_node (a2\<lparr>child_nodes := cn'\<rparr>) = Inr a3"
    and s6: "node < length (samples a3)"
    and s7: "assign_samples d (svars ! node) (svals ! node) (length (samples a1)) (length (samples a2))
               (samples a3 ! node) (samples a3) = Inr smp"
    and res: "a' = a3\<lparr>samples := smp\<rparr>" "r' = r0" "ev = ev0"
    unfolding ebind_eq_Inr idx_eq_Inr by auto
  define C where "C = child_nodes a"
  define c0 where "c0 = (C ! 0)[node := length (samples a)]"
  have cn: "0 < length C" "node < length (C ! 0)" "cn = C[0 := c0]"
    using s2 by (simp_all add: upd2_eq_Inr a1_def C_def c0_def)
  have len2: "2 \<le> length C"
    using s3 by (simp add: create_empty_node_eq_Inr a1_def cn(3))
  have ch2: "child_nodes a2 = C[0 := c0 @ [0], 1 := C ! 1 @ [0]]"
    using s3 len2 cn(1) by (simp add: create_empty_node_eq_Inr cn(3))
  have rest2: "samples a2 = samples a @ [[]]" "split_vars a2 = svars @ [0]"
    "split_values a2 = svals @ [Val 0]"
    using s3 by (simp_all add: create_empty_node_eq_Inr a1_def)
  have cn': "node \<le> length (C ! 1)"
    "cn' = C[0 := c0 @ [0], 1 := (C ! 1 @ [0])[node := Suc (length (samples a))]]"
    using s4 len2 cn(1) by (simp_all add: upd2_eq_Inr ch2 rest2(1))
  have ch3: "child_nodes a3 =
      C[0 := c0 @ [0, 0], 1 := (C ! 1 @ [0])[node := Suc (length (samples a))] @ [0]]"
    using s5 len2 cn(1) by (simp add: create_empty_node_eq_Inr cn'(2) upd01)
  have rest3: "samples a3 = samples a @ [[], []]" "split_vars a3 = svars @ [0, 0]"
    "split_values a3 = svals @ [Val 0, Val 0]"
    using s5 by (simp_all add: create_empty_node_eq_Inr rest2)
  have smp: "smp = (samples a3)
      [length (samples a) := samples a3 ! length (samples a) @
         filter (\<lambda>s. dle (data_get d s (svars ! node)) (svals ! node)) (samples a3 ! node),
       Suc (length (samples a)) := samples a3 ! Suc (length (samples a)) @
         filter (\<lambda>s. \<not> dle (data_get d s (svars ! node)) (svals ! node)) (samples a3 ! node)]"
    using s7 by (subst (asm) assign_samples_eq) (simp_all add: rest3 rest2 a1_def)
  have smp_eq: "smp = samples a @
      [filter (\<lambda>s. dle (data_get d s (svars ! node)) (svals ! node)) (samples a ! node),
       filter (\<lambda>s. \<not> dle (data_get d s (svars ! node)) (svals ! node)) (samples a ! node)]"
    unfolding smp rest3 using nb by (simp add: nth_append list_update_append)
  have "a' = children_of d node a svars svals"
    unfolding res(1) children_of_def
    by (rule tree_arrays.equality) (simp_all add: ch3 rest3 smp_eq C_def c0_def)
  with x xeq stop res nb s1 len2 cn(2) cn'(1) show ?thesis
    by (intro that[of psv svars svals]) (simp_all add: C_def)
qed

lemma children_of_nth:
  assumes "node < length (samples a)" and "node < length svars" and "node < length svals"
    and "2 \<le> length (child_nodes a)"
    and "node < length (child_nodes a ! 0)" and "node \<le> length (child_nodes a ! 1)"
  shows "left_child (children_of d node a svars svals) node = length (samples a)"
    and "right_child (children_of d node a svars svals) node = Suc (length (samples a))"
    and "split_vars (children_of d node a svars svals) ! node = svars ! node"
    and "split_values (children_of d node a svars svals) ! node = svals ! node"
    and "samples (children_of d node a svars svals) ! length (samples a) =
           filter (\<lambda>s. dle (data_get d s (svars ! node)) (svals ! node)) (samples a ! node)"
    and "samples (children_of d node a svars svals) ! Suc (length (samples a)) =
           filter (\<lambda>s. \<not> dle (data_get d s (svars ! node)) (svals ! node)) (samples a ! node)"
proof -
  have c0: "0 < length (child_nodes a)"
    using assms(4) by (cases "child_nodes a") simp_all
  have c1: "Suc 0 < length (child_nodes a)"
    using assms(4) by linarith
  note c = c0 c1
  show "left_child (children_of d node a svars svals) node = length (samples a)"
    using c assms(5) by (simp add: children_of_def left_child_def nth_append)
  show "right_child (children_of d node a svars svals) node = Suc (length (samples a))"
    using c assms(6) by (simp add: children_of_def right_child_def nth_append)
  show "split_vars (children_of d node a svars svals) ! node = svars ! node"
    using assms(2) by (simp add: children_of_def nth_append)
  show "split_values (children_of d node a svars svals) ! node = svals ! node"
    using assms(3) by (simp add: children_of_def nth_append)
  show "samples (children_of d node a svars svals) ! length (samples a) =
           filter (\<lambda>s. dle (data_get d s (svars ! node)) (svals ! node)) (samples a ! node)"
    by (simp add: children_of_def)
  show "samples (children_of d node a svars svals) ! Suc (length (samples a)) =
           filter (\<lambda>s. \<not> dle (data_get d s (svars ! node)) (svals ! node)) (samples a ! node)"
    by (simp add: children_of_def nth_append)
qed

text \<open>
  When \<^verbatim>\<open>split_node\<close> splits a node, the left child is the node appended first and
  the right child the one appended second; the left child holds exactly the node's
  samples \<open>s\<close> with \<^verbatim>\<open>data->get(s, split_vars[node]) <= split_values[node]\<close>, the
  right child exactly all the others, both in the node's order. A sample of the right
  child is thus one for which \<^verbatim>\<open><=\<close> is false: its feature value is greater than
  the threshold, or the value or the threshold is NaN.
\<close>

lemma split_node_partition:
  assumes "split_node S T node d obs a w r = Inr (False, a', r', ev)"
  shows "left_child a' node = length (samples a) \<and>
         right_child a' node = Suc (length (samples a)) \<and>
         samples a' ! left_child a' node = filter (feature_le d a' node) (samples a ! node) \<and>
         samples a' ! right_child a' node =
           filter (\<lambda>s. \<not> feature_le d a' node s) (samples a ! node) \<and>
         (\<forall>s\<in>set (samples a' ! left_child a' node). feature_le d a' node s) \<and>
         (\<forall>s\<in>set (samples a' ! right_child a' node).
            \<not> feature_le d a' node s \<and>
            (feature_gt d a' node s \<or> data_get d s (split_vars a' ! node) = NaN
               \<or> split_values a' ! node = NaN))"
proof -
  from assms obtain psv svars svals where
    b: "node < length (samples a)" "node < length svars" "node < length svals"
      "2 \<le> length (child_nodes a)"
      "node < length (child_nodes a ! 0)" "node \<le> length (child_nodes a ! 1)"
    and a': "a' = children_of d node a svars svals"
    by (rule split_node_False)
  note n = children_of_nth[OF b, of d, folded a']
  have fl: "feature_le d a' node = (\<lambda>s. dle (data_get d s (svars ! node)) (svals ! node))"
    by (simp add: feature_le_def fun_eq_iff n(3,4))
  have l: "samples a' ! left_child a' node = filter (feature_le d a' node) (samples a ! node)"
    by (simp add: n(1) n(5) fl)
  have rt: "samples a' ! right_child a' node =
      filter (\<lambda>s. \<not> feature_le d a' node s) (samples a ! node)"
    by (simp add: n(2) n(6) fl)
  have gt: "\<not> feature_le d a' node s \<Longrightarrow>
      feature_gt d a' node s \<or> data_get d s (split_vars a' ! node) = NaN
        \<or> split_values a' ! node = NaN" for s
    by (simp add: feature_le_def feature_gt_def not_dle_iff)
  show ?thesis
    unfolding l rt using n(1,2) gt by simp
qed

text \<open>
  The example sampler asks for the first candidate variable of a one-column data set.
\<close>

lemma ex_subset:
  "create_split_variable_subset ex_sampler (ex_options h m) [] dd [] () =
     (take (max (min 2 (size_t_sub (get_num_cols dd) 0)) 1) [0..<get_num_cols dd], ())"
  by (simp add: create_split_variable_subset_def ex_sampler_def ex_options_def)

lemma ex_subset_one:
  "get_num_cols dd = 1 \<Longrightarrow>
     create_split_variable_subset ex_sampler (ex_options h m) [] dd [] () = ([0], ())"
  by (simp add: ex_subset size_t_sub_def)

lemma ex_internal_nan:
  "split_node_internal (ex_trainer nan_data False (Suc 0)) 0 ex_obs [0] [[0, Suc 0]] [0] [Val 0] =
     Inr (False, [0], [Val 0], [CallRelabel 0, CallFindBestSplit 0])"
  by (simp add: split_node_internal_def ex_obs_def obs_get_def OUTCOME_def dne_def
      ex_trainer_def ex_options_def ex_relabel_def ex_find_best_split_def nan_data_def)

lemma ex_split_nan:
  "split_node ex_sampler (ex_trainer nan_data False 1) 0 nan_data ex_obs (ex_arrays [0, 1]) [] () =
     Inr (False, ex_split_result, (), [CallRelabel 0, CallFindBestSplit 0])"
proof -
  have o: "options (ex_trainer nan_data False 1) = ex_options False 1"
    by (simp add: ex_trainer_def)
  have c: "create_split_variable_subset ex_sampler (ex_options False 1) [] nan_data [] () = ([0], ())"
    by (rule ex_subset_one) (simp add: nan_data_def)
  have d: "dle (data_get nan_data 0 0) (Val 0)" "\<not> dle (data_get nan_data (Suc 0) 0) (Val 0)"
    by (simp_all add: nan_data_def)
  show ?thesis
    unfolding split_node_def o c
    by (simp add: ex_arrays_def ex_internal_nan upd2_def create_empty_node_def
        push_back_at_def d ex_split_result_def)
qed

lemma ex_internal:
  "split_node_internal (ex_trainer ex_data False (Suc 0)) 0 ex_obs [0] [[0, Suc 0]] [0] [Val 0] =
     Inr (False, [0], [Val 0], [CallRelabel 0, CallFindBestSplit 0])"
  by (simp add: split_node_internal_def ex_obs_def obs_get_def OUTCOME_def dne_def
      ex_trainer_def ex_options_def ex_relabel_def ex_find_best_split_def ex_data_def)

lemma ex_split:
  "split_node ex_sampler (ex_trainer ex_data False 1) 0 ex_data ex_obs (ex_arrays [0, 1]) [] () =
     Inr (False, ex_split_result, (), [CallRelabel 0, CallFindBestSplit 0])"
proof -
  have o: "options (ex_trainer ex_data False 1) = ex_options False 1"
    by (simp add: ex_trainer_def)
  have c: "create_split_variable_subset ex_sampler (ex_options False 1) [] ex_data [] () = ([0], ())"
    by (rule ex_subset_one) (simp add: ex_data_def)
  have d: "dle (data_get ex_data 0 0) (Val 0)" "\<not> dle (data_get ex_data (Suc 0) 0) (Val 0)"
    by (simp_all add: ex_data_def)
  show ?thesis
    unfolding split_node_def o c
    by (simp add: ex_arrays_def ex_internal upd2_def create_empty_node_def
        push_back_at_def d ex_split_result_def)
qed

section \<open>The number of candidate variables\<close>

text \<open>
  Without wrap-around the \<^verbatim>\<open>size_t\<close> difference is the difference of the numbers;
  the skip draw always has at least \<open>num_cols - |no_split_variables|\<close> columns to
  choose from.
\<close>

lemma wrapped_difference:
  fixes a b N :: nat
  assumes "b \<le> a" and "a < N"
  shows "(a + N - b mod N) mod N = a - b"
proof -
  have b: "b mod N = b"
    using assms by simp
  have "a + N - b = (a - b) + N"
    using assms by simp
  then have "(a + N - b) mod N = (a - b) mod N"
    by simp
  also have "\<dots> = a - b"
    using assms by simp
  finally show ?thesis
    unfolding b .
qed

lemma size_t_sub_eq:
  assumes "b \<le> a" and "a < 2 ^ 64"
  shows "size_t_sub a b = a - b"
  unfolding size_t_sub_def using assms by (rule wrapped_difference)

lemma available_variables:
  "mx - length skip \<le> card ({0..<mx} - set skip)"
proof -
  have "card {0..<mx} - card (set skip) \<le> card ({0..<mx} - set skip)"
    by (rule diff_card_le_card_Diff) simp
  moreover have "card (set skip) \<le> length skip"
    by (rule card_length)
  ultimately show ?thesis by simp
qed

lemma create_split_variable_subset_length:
  assumes "draws_as_asked S"
    and "length (get_no_split_variables opts) < get_num_cols d"
    and "get_num_cols d < 2 ^ 64"
    and "mtry_sample = fst (sample_poisson S (get_mtry opts) r)"
    and "split_mtry = clamp 1 (num_independent_variables d opts) mtry_sample"
    and "w \<noteq> [] \<longrightarrow>
           split_mtry \<le> length (get_deterministic_vars opts) + length (get_split_select_vars opts)"
  shows "length (fst (create_split_variable_subset S opts [] d w r)) =
           (if w = [] then length (get_deterministic_vars opts) + split_mtry
            else max (length (get_deterministic_vars opts)) split_mtry)"
proof -
  define niv where "niv = num_independent_variables d opts"
  have niv: "1 \<le> niv"
    using assms(2) by (simp add: niv_def num_independent_variables_def)
  have sub: "size_t_sub (get_num_cols d) (length (get_no_split_variables opts)) = niv"
    unfolding niv_def num_independent_variables_def
    using assms(2,3) by (intro size_t_sub_eq) simp_all
  obtain m r1 where p: "sample_poisson S (get_mtry opts) r = (m, r1)"
    by (cases "sample_poisson S (get_mtry opts) r")
  have m: "mtry_sample = m"
    using assms(4) p by simp
  have c: "max (min m niv) 1 = split_mtry"
    unfolding assms(5) m clamp_def niv_def[symmetric] using niv by auto
  have le: "split_mtry \<le> niv"
    unfolding assms(5) clamp_def niv_def[symmetric] using niv by auto
  have eq: "create_split_variable_subset S opts [] d w r =
      (if w = [] then
         draw_without_replacement_skip S (get_deterministic_vars opts) (get_num_cols d)
           (get_no_split_variables opts) split_mtry r1
       else if split_mtry > length (get_deterministic_vars opts) then
         draw_without_replacement_weighted S (get_deterministic_vars opts)
           (get_split_select_vars opts)
           (split_mtry - length (get_deterministic_vars opts)) w r1
       else (get_deterministic_vars opts, r1))"
    unfolding create_split_variable_subset_def Let_def sub p prod.case c
    by simp
  show ?thesis
  proof (cases "w = []")
    case True
    have "split_mtry \<le> card ({0..<get_num_cols d} - set (get_no_split_variables opts))"
      using le available_variables[of "get_num_cols d" "get_no_split_variables opts"]
      by (simp add: niv_def num_independent_variables_def)
    then have "length (fst (draw_without_replacement_skip S (get_deterministic_vars opts)
        (get_num_cols d) (get_no_split_variables opts) split_mtry r1)) =
        length (get_deterministic_vars opts) + split_mtry"
      using assms(1) unfolding draws_as_asked_def by blast
    then show ?thesis
      unfolding eq using True by simp
  next
    case False
    show ?thesis
    proof (cases "split_mtry > length (get_deterministic_vars opts)")
      case True
      have "split_mtry - length (get_deterministic_vars opts) \<le> length (get_split_select_vars opts)"
        using assms(6) False by simp
      then have "length (fst (draw_without_replacement_weighted S (get_deterministic_vars opts)
          (get_split_select_vars opts) (split_mtry - length (get_deterministic_vars opts)) w r1)) =
          length (get_deterministic_vars opts) + (split_mtry - length (get_deterministic_vars opts))"
        using assms(1) unfolding draws_as_asked_def by blast
      then show ?thesis
        unfolding eq using False True by simp
    next
      case nd: False
      then show ?thesis
        unfolding eq using False by simp
    qed
  qed
qed


text \<open>
  The example sampler draws as asked. With \<^verbatim>\<open>mtry = 2\<close>, two columns of which
  column \<open>1\<close> is a no-split variable, and no deterministic variable, it returns the one
  candidate \<open>0\<close>. With weights on the variables \<open>0\<close> to \<open>3\<close> of five columns and
  the deterministic variable \<open>4\<close> it draws one variable; with the deterministic
  variables \<open>3\<close> and \<open>4\<close> it draws none.
\<close>

lemma ex_sampler_draws_as_asked: "draws_as_asked ex_sampler"
proof -
  have "length (filter (\<lambda>v. v \<notin> set skip) [0..<mx]) = card ({0..<mx} - set skip)" for mx skip
  proof -
    have "distinct (filter (\<lambda>v. v \<notin> set skip) [0..<mx])"
      by simp
    then have "card (set (filter (\<lambda>v. v \<notin> set skip) [0..<mx])) =
        length (filter (\<lambda>v. v \<notin> set skip) [0..<mx])"
      by (rule distinct_card)
    moreover have "set (filter (\<lambda>v. v \<notin> set skip) [0..<mx]) = {0..<mx} - set skip"
      by auto
    ultimately show ?thesis by simp
  qed
  then show ?thesis
    by (simp add: draws_as_asked_def ex_sampler_def)
qed

lemma ex_skip_subset:
  "create_split_variable_subset ex_sampler ex_options_skip [] (ex_data_cols 2) [] () = ([0], ())"
proof -
  have s: "size_t_sub 2 (Suc 0) = 1"
    by (simp add: size_t_sub_def)
  have f: "filter (\<lambda>v. v \<noteq> Suc 0) [0..<2] = [0]"
    by (simp add: upt_rec)
  show ?thesis
    by (simp add: create_split_variable_subset_def ex_sampler_def ex_options_skip_def
        ex_data_cols_def s f)
qed

lemma ex_weighted_subset_one:
  "create_split_variable_subset ex_sampler (ex_options_weighted [4] [0, 1, 2, 3]) []
     (ex_data_cols 5) [Val 1, Val 1, Val 1, Val 1] () = ([4, 0], ())"
proof -
  have s: "size_t_sub 5 0 = 5"
    by (simp add: size_t_sub_def)
  show ?thesis
    by (simp add: create_split_variable_subset_def ex_sampler_def ex_options_weighted_def
        ex_data_cols_def s)
qed

lemma ex_weighted_subset_two:
  "create_split_variable_subset ex_sampler (ex_options_weighted [3, 4] [0, 1, 2]) []
     (ex_data_cols 5) [Val 1, Val 1, Val 1] () = ([3, 4], ())"
proof -
  have s: "size_t_sub 5 0 = 5"
    by (simp add: size_t_sub_def)
  show ?thesis
    by (simp add: create_split_variable_subset_def ex_sampler_def ex_options_weighted_def
        ex_data_cols_def s)
qed




section \<open>Training a tree\<close>

lemma split_node_internal_events:
  assumes "split_node_internal T node obs psv smp svars svals = Inr (stop, svars', svals', ev)"
  shows "CallRepopulate \<notin> set ev"
proof -
  have "set ev \<subseteq> {CallRelabel node, CallFindBestSplit node}"
    using assms unfolding split_node_internal_def
    by (auto simp: ebind_eq_Inr Let_def split: if_splits prod.splits simp del: idx_Inr upd_Inr)
  then show ?thesis by auto
qed

lemma split_node_result:
  assumes "split_node S T node d obs a w r = Inr (stop, a', r', ev)"
  obtains psv r0 svars svals where
    "create_split_variable_subset S (options T) [] d w r = (psv, r0)"
    "split_node_internal T node obs psv (samples a) (split_vars a) (split_values a) =
       Inr (stop, svars, svals, ev)"
    "stop \<Longrightarrow> a' = a\<lparr>split_vars := svars, split_values := svals\<rparr>"
proof -
  obtain psv r0 where c: "create_split_variable_subset S (options T) [] d w r = (psv, r0)"
    by (cases "create_split_variable_subset S (options T) [] d w r")
  from assms c obtain x where
    x: "split_node_internal T node obs psv (samples a) (split_vars a) (split_values a) = Inr x"
    by (auto simp: split_node_def ebind_eq_Inr)
  obtain stop0 svars svals ev0 where xeq: "x = (stop0, svars, svals, ev0)"
    by (cases x) auto
  have "stop0 = stop \<and> ev0 = ev \<and> (stop \<longrightarrow> a' = a\<lparr>split_vars := svars, split_values := svals\<rparr>)"
    using assms c x xeq
    by (cases stop0) (auto simp: split_node_def ebind_eq_Inr Let_def simp del: idx_Inr upd_Inr)
  with c x xeq show ?thesis
    by (intro that[of psv r0 svars svals]) simp_all
qed

lemma mset_concat_clear:
  "i < length xs \<Longrightarrow> mset (concat (xs[i := []])) + mset (xs ! i) = mset (concat xs)"
proof (induction xs arbitrary: i)
  case Nil
  then show ?case by simp
next
  case (Cons x xs)
  then show ?case by (cases i) simp_all
qed

lemma grow_loop_inv:
  assumes "grow_loop fuel S T d obs n i a r evs = Some (Inr (a', r', evs'))"
  shows "mset (concat (samples a')) = mset (concat (samples a)) \<and>
         (CallRepopulate \<notin> set evs \<longrightarrow> CallRepopulate \<notin> set evs')"
  using assms
proof (induction fuel arbitrary: n i a r evs)
  case 0
  then show ?case by simp
next
  case (Suc fuel)
  show ?case
  proof (cases "n > 0")
    case False
    with Suc.prems show ?thesis by simp
  next
    case True
    let ?w = "get_split_select_weights (options T)"
    from Suc.prems True obtain leaf a1 r1 ev where
      sn: "split_node S T i d obs a ?w r = Inr (leaf, a1, r1, ev)"
      by (cases "split_node S T i d obs a ?w r") auto
    from sn obtain psv r0 svars svals where
      int: "split_node_internal T i obs psv (samples a) (split_vars a) (split_values a) =
              Inr (leaf, svars, svals, ev)"
      and leaf_eq: "leaf \<Longrightarrow> a1 = a\<lparr>split_vars := svars, split_values := svals\<rparr>"
      by (rule split_node_result) blast
    have ev: "CallRepopulate \<notin> set ev"
      using int by (rule split_node_internal_events)
    show ?thesis
    proof (cases leaf)
      case True
      with Suc.prems \<open>n > 0\<close> sn
      have rec: "grow_loop fuel S T d obs (n - 1) (Suc i) a1 r1 (evs @ ev) = Some (Inr (a', r', evs'))"
        by simp
      have "samples a1 = samples a"
        using leaf_eq True by simp
      with Suc.IH[OF rec] ev show ?thesis by simp
    next
      case False
      with sn have sn': "split_node S T i d obs a ?w r = Inr (False, a1, r1, ev)"
        by simp
      then obtain svars' svals' where
        b: "i < length (samples a)" and a1: "a1 = children_of d i a svars' svals'"
        by (rule split_node_False) blast
      let ?P = "\<lambda>s. dle (data_get d s (svars' ! i)) (svals' ! i)"
      have s1: "samples a1 = samples a @ [filter ?P (samples a ! i), filter (\<lambda>s. \<not> ?P s) (samples a ! i)]"
        by (simp add: a1 children_of_def)
      have i1: "i < length (samples a1)"
        using b by (simp add: s1)
      with Suc.prems \<open>n > 0\<close> sn False
      have rec: "grow_loop fuel S T d obs (Suc n) (Suc i) (a1\<lparr>samples := (samples a1)[i := []]\<rparr>)
                   r1 (evs @ ev) = Some (Inr (a', r', evs'))"
        by simp
      have "mset (concat ((samples a1)[i := []])) + mset (samples a1 ! i) = mset (concat (samples a1))"
        using i1 by (rule mset_concat_clear)
      moreover have "samples a1 ! i = samples a ! i"
        using b by (simp add: s1 nth_append)
      moreover have "mset (concat (samples a1)) = mset (concat (samples a)) + mset (samples a ! i)"
        by (simp add: s1)
      ultimately have "mset (concat ((samples a1)[i := []])) = mset (concat (samples a))"
        by simp
      with Suc.IH[OF rec] ev show ?thesis by simp
    qed
  qed
qed

lemma grow_tree_result:
  assumes "grow_tree fuel S T d obs r smpls = Some (Inr ((a, held), r1, evs1))"
  shows "held = snd (fst (honesty_split S T r smpls)) \<and>
         mset (concat (samples a)) = mset (fst (fst (honesty_split S T r smpls))) \<and>
         CallRepopulate \<notin> set evs1"
proof -
  obtain root_samples new_leaf_samples r0 where
    h: "honesty_split S T r smpls = ((root_samples, new_leaf_samples), r0)"
    by (cases "honesty_split S T r smpls") auto
  define a0 where "a0 = \<lparr>child_nodes = [[0], [0]], samples = [root_samples],
    split_vars = [0], split_values = [Val 0]\<rparr>"
  have c: "create_empty_node initial_arrays =
      Inr \<lparr>child_nodes = [[0], [0]], samples = [[]], split_vars = [0], split_values = [Val 0]\<rparr>"
    by (simp add: create_empty_node_def initial_arrays_def)
  from assms have
    "(case grow_loop fuel S T d obs 1 0 a0 r0 [] of
        None \<Rightarrow> None
      | Some (Inl e) \<Rightarrow> Some (Inl e)
      | Some (Inr (a, r1, evs)) \<Rightarrow> Some (Inr ((a, new_leaf_samples), r1, evs))) =
     Some (Inr ((a, held), r1, evs1))"
    unfolding grow_tree_def c h by (simp add: a0_def)
  then have g: "grow_loop fuel S T d obs 1 0 a0 r0 [] = Some (Inr (a, r1, evs1))"
    and held: "held = new_leaf_samples"
    by (auto split: option.splits sum.splits)
  from grow_loop_inv[OF g] have "mset (concat (samples a)) = mset root_samples"
    and "CallRepopulate \<notin> set evs1"
    by (simp_all add: a0_def)
  with held h show ?thesis by simp
qed

lemma finish_tree_result:
  assumes "finish_tree T ops d obs a held = Inr (t, ev)"
  shows "(ev = [CallRepopulate] \<and> held \<noteq> []) \<or> (ev = [] \<and> held = [] \<and> leaf_nodes t = samples a)"
proof (cases "held = []")
  case True
  with assms show ?thesis
    by (auto simp: finish_tree_def ebind_eq_Inr tree_of_arrays_def)
next
  case False
  with assms show ?thesis
    by (auto simp: finish_tree_def ebind_eq_Inr)
qed


lemma split_node_leaf:
  assumes "node < length (samples a)" and "node < length (split_values a)"
    and "length (samples a ! node) \<le> get_min_node_size (options T)"
  shows "split_node S T node d obs a w r =
           Inr (True, a\<lparr>split_values := (split_values a)[node := Val (- 1)]\<rparr>,
                snd (create_split_variable_subset S (options T) [] d w r), [])"
proof -
  obtain psv r0 where c: "create_split_variable_subset S (options T) [] d w r = (psv, r0)"
    by (cases "create_split_variable_subset S (options T) [] d w r")
  show ?thesis
    unfolding split_node_def c
    using assms by (simp add: split_node_internal_def)
qed

lemma grow_loop_leaf_step:
  assumes "split_node S T i d obs a (get_split_select_weights (options T)) r = Inr (True, a', r', ev)"
  shows "grow_loop (Suc fuel) S T d obs (Suc m) i a r evs =
           grow_loop fuel S T d obs m (Suc i) a' r' (evs @ ev)"
  using assms by simp

lemma grow_loop_split_step:
  assumes "split_node S T i d obs a (get_split_select_weights (options T)) r = Inr (False, a', r', ev)"
    and "upd (samples a') i [] = Inr smp"
  shows "grow_loop (Suc fuel) S T d obs (Suc m) i a r evs =
           grow_loop fuel S T d obs (Suc (Suc m)) (Suc i) (a'\<lparr>samples := smp\<rparr>) r' (evs @ ev)"
  using assms by simp

lemma grow_loop_done:
  "grow_loop (Suc fuel) S T d obs 0 i a r evs = Some (Inr (a, r, evs))"
  by simp

text \<open>
  Training on the example: the root \<open>[0, 1]\<close> is split, its two children are leaves.
  The loop runs the same way on any data on which the root is split into \<open>[0]\<close> and
  \<open>[1]\<close>.
\<close>

lemma ex_grow_from_split:
  assumes "split_node ex_sampler (ex_trainer dd False 1) 0 dd ex_obs (ex_arrays [0, 1]) [] () =
     Inr (False, ex_split_result, (), [CallRelabel 0, CallFindBestSplit 0])"
  shows "grow_loop 4 ex_sampler (ex_trainer dd False 1) dd ex_obs 1 0 (ex_arrays [0, 1]) () [] =
     Some (Inr (ex_grown, (), [CallRelabel 0, CallFindBestSplit 0]))"
proof -
  define T where "T = ex_trainer dd False 1"
  define A0 where "A0 = ex_arrays [0, 1]"
  define A1 where "A1 = ex_split_result\<lparr>samples := [[], [0], [1]]\<rparr>"
  define A2 where "A2 = A1\<lparr>split_values := [Val 0, Val (- 1), Val 0]\<rparr>"
  define E where "E = [CallRelabel 0, CallFindBestSplit 0]"
  have w: "get_split_select_weights (options T) = []" "get_min_node_size (options T) = 1"
    by (simp_all add: T_def ex_trainer_def ex_options_def)
  have l0: "split_node ex_sampler T 0 dd ex_obs A0 (get_split_select_weights (options T)) () =
      Inr (False, ex_split_result, (), E)"
    unfolding T_def A0_def E_def w(1)[unfolded T_def] by (rule assms)
  have u0: "upd (samples ex_split_result) 0 [] = Inr [[], [0], [1]]"
    by (simp add: ex_split_result_def)
  have l1: "split_node ex_sampler T (Suc 0) dd ex_obs A1 (get_split_select_weights (options T)) () =
      Inr (True, A2, (), [])"
    by (subst split_node_leaf) (simp_all add: A1_def A2_def ex_split_result_def w)
  have l2: "split_node ex_sampler T (Suc (Suc 0)) dd ex_obs A2
      (get_split_select_weights (options T)) () = Inr (True, ex_grown, (), [])"
    by (subst split_node_leaf)
      (simp_all add: A1_def A2_def ex_split_result_def w ex_grown_def)
  have "grow_loop (Suc (Suc (Suc (Suc 0)))) ex_sampler T dd ex_obs (Suc 0) 0 A0 () [] =
      grow_loop (Suc (Suc (Suc 0))) ex_sampler T dd ex_obs (Suc (Suc 0)) (Suc 0) A1 () ([] @ E)"
    unfolding A1_def using l0 u0 by (rule grow_loop_split_step)
  also have "\<dots> = grow_loop (Suc (Suc 0)) ex_sampler T dd ex_obs (Suc 0) (Suc (Suc 0)) A2 ()
      (([] @ E) @ [])"
    using l1 by (rule grow_loop_leaf_step)
  also have "\<dots> = grow_loop (Suc 0) ex_sampler T dd ex_obs 0 (Suc (Suc (Suc 0))) ex_grown ()
      ((([] @ E) @ []) @ [])"
    using l2 by (rule grow_loop_leaf_step)
  also have "\<dots> = Some (Inr (ex_grown, (), (([] @ E) @ []) @ []))"
    by (rule grow_loop_done)
  finally have r: "grow_loop (Suc (Suc (Suc (Suc 0)))) ex_sampler T dd ex_obs (Suc 0) 0 A0 () [] =
      Some (Inr (ex_grown, (), E))"
    by simp
  have n4: "(4::nat) = Suc (Suc (Suc (Suc 0)))"
    by simp
  have "grow_loop 4 ex_sampler T dd ex_obs 1 0 A0 () [] = Some (Inr (ex_grown, (), E))"
    unfolding n4 One_nat_def by (rule r)
  then show ?thesis
    unfolding T_def A0_def E_def .
qed

lemma ex_grow:
  "grow_loop 4 ex_sampler (ex_trainer ex_data False 1) ex_data ex_obs 1 0 (ex_arrays [0, 1]) () [] =
     Some (Inr (ex_grown, (), [CallRelabel 0, CallFindBestSplit 0]))"
  using ex_split by (rule ex_grow_from_split)

lemma create_empty_node_initial:
  "create_empty_node initial_arrays = Inr (ex_arrays [])"
  by (simp add: create_empty_node_def initial_arrays_def ex_arrays_def)

lemma ex_grow_tree:
  "grow_tree 4 ex_sampler (ex_trainer ex_data False 1) ex_data ex_obs () [0, 1] =
     Some (Inr ((ex_grown, []), (), [CallRelabel 0, CallFindBestSplit 0]))"
proof -
  have h: "honesty_split ex_sampler (ex_trainer ex_data False 1) () [0, 1] = (([0, 1], []), ())"
    by (simp add: honesty_split_def ex_trainer_def ex_options_def)
  have u: "upd (samples (ex_arrays [])) 0 [0, 1] = Inr [[0, 1]]"
    by (simp add: ex_arrays_def)
  have a: "ex_arrays []\<lparr>samples := [[0, 1]]\<rparr> = ex_arrays [0, 1]"
    by (simp add: ex_arrays_def)
  show ?thesis
    unfolding grow_tree_def create_empty_node_initial h sum.case prod.case u a ex_grow option.case
    by (rule refl)
qed

lemma ex_train:
  "train 4 ex_sampler (ex_trainer ex_data False 1) ex_ops ex_data ex_obs () [0, 1] =
     Some (Inr (ex_tree, (), [CallRelabel 0, CallFindBestSplit 0]))"
proof -
  have f: "finish_tree (ex_trainer ex_data False 1) ex_ops ex_data ex_obs ex_grown [] =
      Inr (ex_tree, [])"
    by (simp add: finish_tree_def tree_of_arrays_def ex_grown_def ex_tree_def ex_trainer_def)
  show ?thesis
    unfolding train_def ex_grow_tree option.case sum.case prod.case f
    by simp
qed

lemma ex_grow_honest:
  "grow_tree 2 ex_sampler (ex_trainer ex_data True 5) ex_data ex_obs () [0, 1, 2, 3] =
     Some (Inr ((ex_arrays [0, 1]\<lparr>split_values := [Val (- 1)]\<rparr>, [2, 3]), (), []))"
proof -
  define T where "T = ex_trainer ex_data True 5"
  have w: "get_split_select_weights (options T) = []" "get_min_node_size (options T) = 5"
    by (simp_all add: T_def ex_trainer_def ex_options_def)
  have h: "honesty_split ex_sampler T () [0, 1, 2, 3] = (([0, 1], [2, 3]), ())"
    by (simp add: honesty_split_def T_def ex_trainer_def ex_options_def ex_sampler_def)
  have u: "upd (samples (ex_arrays [])) 0 [0, 1] = Inr [[0, 1]]"
    by (simp add: ex_arrays_def)
  have a: "ex_arrays []\<lparr>samples := [[0, 1]]\<rparr> = ex_arrays [0, 1]"
    by (simp add: ex_arrays_def)
  have l: "split_node ex_sampler T 0 ex_data ex_obs (ex_arrays [0, 1])
      (get_split_select_weights (options T)) () =
      Inr (True, ex_arrays [0, 1]\<lparr>split_values := [Val (- 1)]\<rparr>, (), [])"
    by (subst split_node_leaf) (simp_all add: ex_arrays_def w)
  have "grow_loop (Suc (Suc 0)) ex_sampler T ex_data ex_obs (Suc 0) 0 (ex_arrays [0, 1]) () [] =
      grow_loop (Suc 0) ex_sampler T ex_data ex_obs 0 (Suc 0)
        (ex_arrays [0, 1]\<lparr>split_values := [Val (- 1)]\<rparr>) () ([] @ [])"
    using l by (rule grow_loop_leaf_step)
  also have "\<dots> = Some (Inr (ex_arrays [0, 1]\<lparr>split_values := [Val (- 1)]\<rparr>, (), [] @ []))"
    by (rule grow_loop_done)
  finally have g: "grow_loop 2 ex_sampler T ex_data ex_obs 1 0 (ex_arrays [0, 1]) () [] =
      Some (Inr (ex_arrays [0, 1]\<lparr>split_values := [Val (- 1)]\<rparr>, (), []))"
    by (simp add: numeral_2_eq_2)
  have "grow_tree 2 ex_sampler T ex_data ex_obs () [0, 1, 2, 3] =
     Some (Inr ((ex_arrays [0, 1]\<lparr>split_values := [Val (- 1)]\<rparr>, [2, 3]), (), []))"
    unfolding grow_tree_def create_empty_node_initial h sum.case prod.case u a g option.case
    by (rule refl)
  then show ?thesis unfolding T_def .
qed

lemma ex_train_honest:
  "train 2 ex_sampler (ex_trainer ex_data True 5) ex_ops2 ex_data ex_obs () [0, 1, 2, 3] =
     Some (Inr (ex_honest_tree, (), [CallRepopulate]))"
proof -
  have f: "finish_tree (ex_trainer ex_data True 5) ex_ops2 ex_data ex_obs
      (ex_arrays [0, 1]\<lparr>split_values := [Val (- 1)]\<rparr>) [2, 3] =
      Inr (ex_honest_tree, [CallRepopulate])"
    by (simp add: finish_tree_def tree_of_arrays_def ex_arrays_def ex_honest_tree_def
        ex_trainer_def repopulate_leaf_nodes_def ex_ops2_def ex_data_def vec_at_def)
  show ?thesis
    unfolding train_def ex_grow_honest option.case sum.case prod.case f
    by simp
qed


section \<open>Split ordering in a grown tree\<close>

text \<open>
  A node without children has nothing below it but itself, and what lies below a node
  depends on \<^verbatim>\<open>child_nodes\<close> and the number of nodes only.
\<close>

lemma below_leaf:
  assumes "below a c m" and "\<not> internal a c"
  shows "m = c"
  using assms by (induction rule: below.induct) simp_all

lemma below_same_children:
  assumes "below a c m" and "child_nodes b = child_nodes a"
    and "length (samples b) = length (samples a)"
  shows "below b c m"
  using assms(1)
proof (induction rule: below.induct)
  case below_self
  show ?case by (rule below.below_self)
next
  case (below_left m)
  have "internal b m"
    using below_left.hyps(2) assms(2,3) by (simp add: internal_def left_child_def right_child_def)
  with below_left.IH have "below b c (left_child b m)"
    by (rule below.below_left)
  then show ?case
    using assms(2) by (simp add: left_child_def)
next
  case (below_right m)
  have "internal b m"
    using below_right.hyps(2) assms(2,3) by (simp add: internal_def left_child_def right_child_def)
  with below_right.IH have "below b c (right_child b m)"
    by (rule below.below_right)
  then show ?case
    using assms(2) by (simp add: right_child_def)
qed

lemma terminal_arrays:
  assumes "ebind (upd sx node (Val (- 1))) (\<lambda>s. Inr (True, sv, s, e)) = Inr (stop, svars', svals', ev)"
  shows "svars' = sv \<and> svals' = sx[node := Val (- 1)]"
  using assms by (auto simp: ebind_eq_Inr upd_eq_Inr simp del: upd_Inr)

lemma split_node_internal_frame:
  assumes "writes_own_node T"
    and "split_node_internal T node obs psv smp svars svals = Inr (stop, svars', svals', ev)"
  shows "\<exists>v x. svars' = svars[node := v] \<and> svals' = svals[node := x]"
proof -
  have id: "svars = svars[node := svars ! node]"
    by simp
  from assms(2) obtain ns where ns: "idx smp node = Inr ns"
    unfolding split_node_internal_def by (cases "idx smp node") simp_all
  show ?thesis
  proof (cases "length ns \<le> get_min_node_size (options T)")
    case True
    with assms(2) ns have "svars' = svars \<and> svals' = svals[node := Val (- 1)]"
      by (intro terminal_arrays[where e = "[]" and stop = stop and ev = ev])
        (simp add: split_node_internal_def del: idx_Inr upd_Inr)
    with id show ?thesis by metis
  next
    case False
    with assms(2) ns obtain pure where p: "pure_loop obs ns 0 (Val 0) = Inr pure"
      by (cases "pure_loop obs ns 0 (Val 0)")
        (simp_all add: split_node_internal_def del: idx_Inr upd_Inr)
    show ?thesis
    proof (cases pure)
      case True
      with assms(2) ns False p have "svars' = svars \<and> svals' = svals[node := Val (- 1)]"
        by (intro terminal_arrays[where e = "[]" and stop = stop and ev = ev])
          (simp add: split_node_internal_def del: idx_Inr upd_Inr)
      with id show ?thesis by metis
    next
      case np: False
      show ?thesis
      proof (cases "relabel T ns obs = []")
        case True
        with assms(2) ns False p np have "svars' = svars \<and> svals' = svals[node := Val (- 1)]"
          by (intro terminal_arrays[where e = "[CallRelabel node]" and stop = stop and ev = ev])
            (simp add: split_node_internal_def del: idx_Inr upd_Inr)
        with id show ?thesis by metis
      next
        case nr: False
        obtain st sv1 sx1 where
          f: "find_best_split T node psv (relabel T ns obs) smp svars svals = (st, sv1, sx1)"
          by (cases "find_best_split T node psv (relabel T ns obs) smp svars svals") auto
        from assms(1) obtain v x where
          "snd (find_best_split T node psv (relabel T ns obs) smp svars svals) =
             (svars[node := v], svals[node := x])"
          unfolding writes_own_node_def by blast
        with f have w: "sv1 = svars[node := v]" "sx1 = svals[node := x]"
          by simp_all
        show ?thesis
        proof (cases st)
          case True
          with assms(2) ns False p np nr f have "svars' = sv1 \<and> svals' = sx1[node := Val (- 1)]"
            by (intro terminal_arrays[where e = "[CallRelabel node, CallFindBestSplit node]"
                  and stop = stop and ev = ev])
              (simp add: split_node_internal_def del: idx_Inr upd_Inr)
          with w show ?thesis by (metis list_update_overwrite)
        next
          case nst: False
          with assms(2) ns False p np nr f have "svars' = sv1 \<and> svals' = sx1"
            by (simp add: split_node_internal_def del: idx_Inr upd_Inr)
          with w show ?thesis by metis
        qed
      qed
    qed
  qed
qed

text \<open>
  The two ways a round of the loop changes the arrays: a node that stays a leaf has at
  most its own split variable and value rewritten; a node that is split gets two new
  children, which take its samples, and is emptied.
\<close>

lemma below_in_range:
  assumes "below a c m" and "c < length (samples a)"
    and "\<forall>n. internal a n \<longrightarrow>
        n < left_child a n \<and> right_child a n = Suc (left_child a n) \<and>
        right_child a n < length (samples a)"
  shows "m < length (samples a)"
  using assms(1)
proof (induction rule: below.induct)
  case below_self
  show ?case by (rule assms(2))
next
  case (below_left m)
  with assms(3) show ?case by fastforce
next
  case (below_right m)
  with assms(3) show ?case by fastforce
qed

lemma grown_leaf:
  assumes g: "grown d a i"
    and sv: "svars = (split_vars a)[i := v]" "svals = (split_values a)[i := x]"
  shows "grown d (a\<lparr>split_vars := svars, split_values := svals\<rparr>) (Suc i)"
proof -
  let ?b = "a\<lparr>split_vars := svars, split_values := svals\<rparr>"
  have int: "internal ?b n = internal a n" for n
    by (simp add: internal_def left_child_def right_child_def)
  have lc: "left_child ?b n = left_child a n" "right_child ?b n = right_child a n" for n
    by (simp_all add: left_child_def right_child_def)
  have bel: "below a c m" if "below ?b c m" for c m
    using that by (rule below_same_children) simp_all
  have ni: "\<not> internal a i"
    using g by (simp add: grown_def)
  have fl: "feature_le d ?b n s = feature_le d a n s" if "internal a n" for n s
  proof -
    have "n \<noteq> i" using that ni by auto
    then show ?thesis by (simp add: feature_le_def sv)
  qed
  have o1: "feature_le d ?b n s"
    if "internal ?b n" "below ?b (left_child ?b n) m" "s \<in> set (samples ?b ! m)" for n m s
  proof -
    have i: "internal a n" using that(1) int by simp
    have "below a (left_child a n) m" using that(2) lc bel by simp
    moreover have "s \<in> set (samples a ! m)" using that(3) by simp
    ultimately have "feature_le d a n s"
      using g i unfolding grown_def by blast
    then show ?thesis using fl[OF i] by simp
  qed
  have o2: "\<not> feature_le d ?b n s"
    if "internal ?b n" "below ?b (right_child ?b n) m" "s \<in> set (samples ?b ! m)" for n m s
  proof -
    have i: "internal a n" using that(1) int by simp
    have "below a (right_child a n) m" using that(2) lc bel by simp
    moreover have "s \<in> set (samples a ! m)" using that(3) by simp
    ultimately have "\<not> feature_le d a n s"
      using g i unfolding grown_def by blast
    then show ?thesis using fl[OF i] by simp
  qed
  have len: "2 \<le> length (child_nodes ?b)" "1 \<le> length (samples ?b)"
    "length (child_nodes ?b ! 0) = length (samples ?b)"
    "length (child_nodes ?b ! 1) = length (samples ?b)"
    "length (split_vars ?b) = length (samples ?b)"
    "length (split_values ?b) = length (samples ?b)"
    using g by (simp_all add: grown_def sv)
  have open_nodes: "\<forall>n. Suc i \<le> n \<longrightarrow> \<not> internal ?b n"
    using g int by (simp add: grown_def)
  have ids: "\<forall>n. internal ?b n \<longrightarrow>
        n < left_child ?b n \<and> right_child ?b n = Suc (left_child ?b n) \<and>
        right_child ?b n < length (samples ?b)"
  proof (intro allI impI)
    fix n
    assume "internal ?b n"
    then have "internal a n" by (simp add: int)
    then have "n < left_child a n \<and> right_child a n = Suc (left_child a n) \<and>
        right_child a n < length (samples a)"
      using g unfolding grown_def by blast
    then show "n < left_child ?b n \<and> right_child ?b n = Suc (left_child ?b n) \<and>
        right_child ?b n < length (samples ?b)"
      by (simp add: lc)
  qed
  show ?thesis
    unfolding grown_def using len open_nodes ids o1 o2 by blast
qed

lemma grown_split:
  assumes g: "grown d a i" and i: "i < length (samples a)"
    and sv: "svars = (split_vars a)[i := v]" "svals = (split_values a)[i := x]"
    and a1: "a1 = children_of d i a svars svals"
    and b: "b = a1\<lparr>samples := (samples a1)[i := []]\<rparr>"
  shows "grown d b (Suc i)"
proof -
  define L where "L = length (samples a)"
  define P where "P = (\<lambda>s. dle (data_get d s (svars ! i)) (svals ! i))"
  have len: "2 \<le> length (child_nodes a)" "1 \<le> L"
    "length (child_nodes a ! 0) = L" "length (child_nodes a ! 1) = L"
    "length (split_vars a) = L" "length (split_values a) = L"
    using g by (simp_all add: grown_def L_def)
  have iL: "i < L" using i by (simp add: L_def)
  have c0: "0 < length (child_nodes a)" and c1: "Suc 0 < length (child_nodes a)"
    using len(1) by linarith+
  have ni: "\<not> internal a n" if "i \<le> n" for n
    using g that unfolding grown_def by blast
  have ids: "n < left_child a n \<and> right_child a n = Suc (left_child a n) \<and> right_child a n < L"
    if "internal a n" for n
    using g that unfolding grown_def L_def by blast
  have ord_l: "feature_le d a n s"
    if "internal a n" "below a (left_child a n) m" "s \<in> set (samples a ! m)" for n m s
    using g that unfolding grown_def by blast
  have ord_r: "\<not> feature_le d a n s"
    if "internal a n" "below a (right_child a n) m" "s \<in> set (samples a ! m)" for n m s
    using g that unfolding grown_def by blast
  have smp_b: "samples b = (samples a @ [filter P (samples a ! i), filter (\<lambda>s. \<not> P s) (samples a ! i)])[i := []]"
    by (simp add: b a1 children_of_def P_def)
  have lenb: "length (samples b) = Suc (Suc L)"
    by (simp add: smp_b L_def)
  have cn0: "child_nodes b ! 0 = (child_nodes a ! 0)[i := L] @ [0, 0]"
    using c0 c1 by (simp add: b a1 children_of_def L_def)
  have cn1: "child_nodes b ! 1 = (child_nodes a ! 1)[i := Suc L] @ [0, 0]"
    using c0 c1 iL len(4) by (simp add: b a1 children_of_def L_def list_update_append)
  have lcb: "left_child b n = (if n = i then L else if n < L then left_child a n else 0)"
    if "n < Suc (Suc L)" for n
    using that iL len(3) unfolding left_child_def cn0
    by (cases "n < L") (auto simp: nth_append less_Suc_eq)
  have rcb: "right_child b n = (if n = i then Suc L else if n < L then right_child a n else 0)"
    if "n < Suc (Suc L)" for n
    using that iL len(4) unfolding right_child_def cn1
    by (cases "n < L") (auto simp: nth_append less_Suc_eq)
  have intb: "internal b n \<longleftrightarrow> n = i \<or> internal a n" for n
  proof (cases "n < Suc (Suc L)")
    case False
    then show ?thesis using iL by (auto simp: internal_def lenb L_def)
  next
    case True
    show ?thesis
      using True iL len(2) unfolding internal_def lenb lcb[OF True] rcb[OF True] L_def[symmetric]
      by auto
  qed
  have smpb_nth: "set (samples b ! m) \<subseteq> set (samples a ! m)" if "m < L" for m
    using that unfolding smp_b L_def
    by (cases "m = i") (simp_all add: nth_append nth_list_update)
  have smpb_L: "samples b ! L = filter P (samples a ! i)"
    using iL unfolding smp_b L_def by (simp add: nth_append nth_list_update)
  have smpb_SL: "samples b ! Suc L = filter (\<lambda>s. \<not> P s) (samples a ! i)"
    using iL unfolding smp_b L_def by (simp add: nth_append nth_list_update)
  have ids_all: "\<forall>n. internal a n \<longrightarrow>
        n < left_child a n \<and> right_child a n = Suc (left_child a n) \<and>
        right_child a n < length (samples a)"
    using g unfolding grown_def by blast
  have rng: "m < L" if "below a c m" "c < L" for c m
    unfolding L_def using that(1) that(2)[unfolded L_def] ids_all by (rule below_in_range)
  have bel: "below a c m \<or> (below a c i \<and> (m = L \<or> m = Suc L))" if "below b c m" "c < Suc (Suc L)" for c m
    using that(1)
  proof (induction rule: below.induct)
    case below_self
    show ?case by (simp add: below.below_self)
  next
    case (below_left m)
    from below_left.hyps(2) have "m = i \<or> internal a m" by (simp add: intb)
    then show ?case
    proof
      assume mi: "m = i"
      have "left_child b i = L" using iL by (simp add: lcb)
      moreover have "below a c i"
        using below_left.IH mi iL by auto
      ultimately show ?thesis using mi by simp
    next
      assume ia: "internal a m"
      then have mL: "m < L" by (simp add: internal_def L_def)
      have mi: "m \<noteq> i" using ia ni by auto
      have "left_child b m = left_child a m" using mL mi by (simp add: lcb)
      moreover have "below a c m"
        using below_left.IH mL by auto
      ultimately show ?thesis using ia by (simp add: below.below_left)
    qed
  next
    case (below_right m)
    from below_right.hyps(2) have "m = i \<or> internal a m" by (simp add: intb)
    then show ?case
    proof
      assume mi: "m = i"
      have "right_child b i = Suc L" using iL by (simp add: rcb)
      moreover have "below a c i"
        using below_right.IH mi iL by auto
      ultimately show ?thesis using mi by simp
    next
      assume ia: "internal a m"
      then have mL: "m < L" by (simp add: internal_def L_def)
      have mi: "m \<noteq> i" using ia ni by auto
      have "right_child b m = right_child a m" using mL mi by (simp add: rcb)
      moreover have "below a c m"
        using below_right.IH mL by auto
      ultimately show ?thesis using ia by (simp add: below.below_right)
    qed
  qed
  have svb: "split_vars b ! n = svars ! n" "split_values b ! n = svals ! n" if "n < L" for n
    using that len(5,6) by (simp_all add: b a1 children_of_def sv nth_append)
  have fl_i: "feature_le d b i = P"
    using iL by (simp add: feature_le_def fun_eq_iff svb P_def)
  have fl_old: "feature_le d b n s = feature_le d a n s" if "internal a n" for n s
  proof -
    have "n < L" using that by (simp add: internal_def L_def)
    moreover have "n \<noteq> i" using that ni by auto
    ultimately show ?thesis by (simp add: feature_le_def svb sv)
  qed
  have leafL: "\<not> internal a L" "\<not> internal a (Suc L)"
    by (simp_all add: internal_def L_def)
  have o1: "feature_le d b n s"
    if "internal b n" "below b (left_child b n) m" "s \<in> set (samples b ! m)" for n m s
  proof -
    from that(1) have "n = i \<or> internal a n" by (simp add: intb)
    then show ?thesis
    proof
      assume n: "n = i"
      have l: "left_child b n = L" using n iL by (simp add: lcb)
      from bel[OF that(2)[unfolded l]]
      have "below a L m \<or> below a L i" by auto
      then have "m = L"
      proof
        assume "below a L m"
        then show ?thesis using leafL(1) by (rule below_leaf)
      next
        assume "below a L i"
        then have "i = L" using leafL(1) by (rule below_leaf)
        then show ?thesis using iL by simp
      qed
      with that(3) have "P s" by (simp add: smpb_L)
      then show ?thesis by (simp add: n fl_i)
    next
      assume ia: "internal a n"
      then have nL: "n < L" by (simp add: internal_def L_def)
      have n: "n \<noteq> i" using ia ni by auto
      have l: "left_child b n = left_child a n" using nL n by (simp add: lcb)
      have cL: "left_child a n < L" using ids[OF ia] by simp
      from bel[OF that(2)[unfolded l]] cL
      have "below a (left_child a n) m \<or> (below a (left_child a n) i \<and> (m = L \<or> m = Suc L))"
        by simp
      then have "\<exists>m'. below a (left_child a n) m' \<and> s \<in> set (samples a ! m')"
      proof
        assume bm: "below a (left_child a n) m"
        then have "m < L" using cL by (rule rng)
        then have "s \<in> set (samples a ! m)" using smpb_nth that(3) by blast
        with bm show ?thesis by blast
      next
        assume bi: "below a (left_child a n) i \<and> (m = L \<or> m = Suc L)"
        then have "s \<in> set (samples a ! i)"
          using that(3) by (auto simp: smpb_L smpb_SL)
        with bi show ?thesis by blast
      qed
      then have "feature_le d a n s" using ord_l[OF ia] by blast
      then show ?thesis by (simp add: fl_old[OF ia])
    qed
  qed
  have o2: "\<not> feature_le d b n s"
    if "internal b n" "below b (right_child b n) m" "s \<in> set (samples b ! m)" for n m s
  proof -
    from that(1) have "n = i \<or> internal a n" by (simp add: intb)
    then show ?thesis
    proof
      assume n: "n = i"
      have l: "right_child b n = Suc L" using n iL by (simp add: rcb)
      from bel[OF that(2)[unfolded l]]
      have "below a (Suc L) m \<or> below a (Suc L) i" by auto
      then have "m = Suc L"
      proof
        assume "below a (Suc L) m"
        then show ?thesis using leafL(2) by (rule below_leaf)
      next
        assume "below a (Suc L) i"
        then have "i = Suc L" using leafL(2) by (rule below_leaf)
        then show ?thesis using iL by simp
      qed
      with that(3) have "\<not> P s" by (simp add: smpb_SL)
      then show ?thesis by (simp add: n fl_i)
    next
      assume ia: "internal a n"
      then have nL: "n < L" by (simp add: internal_def L_def)
      have n: "n \<noteq> i" using ia ni by auto
      have l: "right_child b n = right_child a n" using nL n by (simp add: rcb)
      have cL: "right_child a n < L" using ids[OF ia] by simp
      from bel[OF that(2)[unfolded l]] cL
      have "below a (right_child a n) m \<or> (below a (right_child a n) i \<and> (m = L \<or> m = Suc L))"
        by simp
      then have "\<exists>m'. below a (right_child a n) m' \<and> s \<in> set (samples a ! m')"
      proof
        assume bm: "below a (right_child a n) m"
        then have "m < L" using cL by (rule rng)
        then have "s \<in> set (samples a ! m)" using smpb_nth that(3) by blast
        with bm show ?thesis by blast
      next
        assume bi: "below a (right_child a n) i \<and> (m = L \<or> m = Suc L)"
        then have "s \<in> set (samples a ! i)"
          using that(3) by (auto simp: smpb_L smpb_SL)
        with bi show ?thesis by blast
      qed
      then have "\<not> feature_le d a n s" using ord_r[OF ia] by blast
      then show ?thesis by (simp add: fl_old[OF ia])
    qed
  qed
  have lens: "2 \<le> length (child_nodes b)" "1 \<le> length (samples b)"
    "length (child_nodes b ! 0) = length (samples b)"
    "length (child_nodes b ! 1) = length (samples b)"
    "length (split_vars b) = length (samples b)"
    "length (split_values b) = length (samples b)"
  proof -
    show "2 \<le> length (child_nodes b)"
      using len(1) by (simp add: b a1 children_of_def)
    show "1 \<le> length (samples b)" by (simp add: lenb)
    show "length (child_nodes b ! 0) = length (samples b)"
      using cn0 len(3) by (simp add: lenb)
    show "length (child_nodes b ! 1) = length (samples b)"
      using cn1 len(4) by (simp add: lenb)
    show "length (split_vars b) = length (samples b)"
      using len(5) by (simp add: b a1 children_of_def sv L_def)
    show "length (split_values b) = length (samples b)"
      using len(6) by (simp add: b a1 children_of_def sv L_def)
  qed
  have open_nodes: "\<forall>n. Suc i \<le> n \<longrightarrow> \<not> internal b n"
    using ni by (auto simp: intb)
  have idsb: "\<forall>n. internal b n \<longrightarrow>
      n < left_child b n \<and> right_child b n = Suc (left_child b n) \<and>
      right_child b n < length (samples b)"
  proof (intro allI impI)
    fix n
    assume "internal b n"
    then have "n = i \<or> internal a n" by (simp add: intb)
    then show "n < left_child b n \<and> right_child b n = Suc (left_child b n) \<and>
      right_child b n < length (samples b)"
    proof
      assume "n = i"
      then show ?thesis using iL by (simp add: lcb rcb lenb)
    next
      assume ia: "internal a n"
      then have nL: "n < L" by (simp add: internal_def L_def)
      have n: "n \<noteq> i" using ia ni by auto
      show ?thesis using ids[OF ia] nL n by (simp add: lcb rcb lenb)
    qed
  qed
  show ?thesis
    unfolding grown_def using lens open_nodes idsb o1 o2 by blast
qed

text \<open>
  The loop of \<^verbatim>\<open>train\<close> keeps the arrays \<open>grown\<close>, from the single root node on.
\<close>

lemma grow_loop_grown:
  assumes "writes_own_node T"
    and "grow_loop fuel S T d obs n i a r evs = Some (Inr (a', r', evs'))"
    and "grown d a i"
  shows "\<exists>i'. grown d a' i'"
  using assms(2,3)
proof (induction fuel arbitrary: n i a r evs)
  case 0
  then show ?case by simp
next
  case (Suc fuel)
  show ?case
  proof (cases "n > 0")
    case False
    with Suc.prems show ?thesis by auto
  next
    case True
    let ?w = "get_split_select_weights (options T)"
    from Suc.prems(1) True obtain leaf a1 r1 ev where
      sn: "split_node S T i d obs a ?w r = Inr (leaf, a1, r1, ev)"
      by (cases "split_node S T i d obs a ?w r") auto
    show ?thesis
    proof (cases leaf)
      case True
      from sn obtain psv r0 svars svals where
        int: "split_node_internal T i obs psv (samples a) (split_vars a) (split_values a) =
                Inr (leaf, svars, svals, ev)"
        and leaf_eq: "leaf \<Longrightarrow> a1 = a\<lparr>split_vars := svars, split_values := svals\<rparr>"
        by (rule split_node_result) blast
      from split_node_internal_frame[OF assms(1) int] obtain v x where
        sv: "svars = (split_vars a)[i := v]" "svals = (split_values a)[i := x]"
        by blast
      have "grown d (a\<lparr>split_vars := svars, split_values := svals\<rparr>) (Suc i)"
        using Suc.prems(2) sv by (rule grown_leaf)
      then have g1: "grown d a1 (Suc i)"
        using leaf_eq True by simp
      from Suc.prems(1) \<open>n > 0\<close> sn True
      have rec: "grow_loop fuel S T d obs (n - 1) (Suc i) a1 r1 (evs @ ev) = Some (Inr (a', r', evs'))"
        by simp
      from rec g1 show ?thesis by (rule Suc.IH)
    next
      case False
      with sn have sn': "split_node S T i d obs a ?w r = Inr (False, a1, r1, ev)"
        by simp
      then obtain psv svars svals where
        int: "split_node_internal T i obs psv (samples a) (split_vars a) (split_values a) =
                Inr (False, svars, svals, ev)"
        and b: "i < length (samples a)" and a1: "a1 = children_of d i a svars svals"
        by (rule split_node_False) blast
      from split_node_internal_frame[OF assms(1) int] obtain v x where
        sv: "svars = (split_vars a)[i := v]" "svals = (split_values a)[i := x]"
        by blast
      have g1: "grown d (a1\<lparr>samples := (samples a1)[i := []]\<rparr>) (Suc i)"
        using Suc.prems(2) b sv a1 refl by (rule grown_split)
      have i1: "i < length (samples a1)"
        using b by (simp add: a1 children_of_def)
      with Suc.prems(1) \<open>n > 0\<close> sn False
      have rec: "grow_loop fuel S T d obs (Suc n) (Suc i) (a1\<lparr>samples := (samples a1)[i := []]\<rparr>)
                   r1 (evs @ ev) = Some (Inr (a', r', evs'))"
        by simp
      from rec g1 show ?thesis by (rule Suc.IH)
    qed
  qed
qed

lemma grown_root:
  "grown d \<lparr>child_nodes = [[0], [0]], samples = [root_samples], split_vars = [0],
            split_values = [Val 0]\<rparr> 0"
proof -
  have "\<not> internal \<lparr>child_nodes = [[0], [0]], samples = [root_samples], split_vars = [0],
            split_values = [Val 0]\<rparr> n" for n
    by (cases n) (simp_all add: internal_def left_child_def right_child_def)
  then show ?thesis
    by (simp add: grown_def)
qed

lemma grow_tree_grown:
  assumes "writes_own_node T"
    and "grow_tree fuel S T d obs r smpls = Some (Inr ((a, held), r1, evs1))"
  shows "\<exists>i. grown d a i"
proof -
  obtain root_samples new_leaf_samples r0 where
    h: "honesty_split S T r smpls = ((root_samples, new_leaf_samples), r0)"
    by (cases "honesty_split S T r smpls") auto
  define a0 where "a0 = \<lparr>child_nodes = [[0], [0]], samples = [root_samples],
    split_vars = [0], split_values = [Val 0]\<rparr>"
  have c: "create_empty_node initial_arrays =
      Inr \<lparr>child_nodes = [[0], [0]], samples = [[]], split_vars = [0], split_values = [Val 0]\<rparr>"
    by (simp add: create_empty_node_def initial_arrays_def)
  from assms(2) have
    "(case grow_loop fuel S T d obs 1 0 a0 r0 [] of
        None \<Rightarrow> None
      | Some (Inl e) \<Rightarrow> Some (Inl e)
      | Some (Inr (a, r1, evs)) \<Rightarrow> Some (Inr ((a, new_leaf_samples), r1, evs))) =
     Some (Inr ((a, held), r1, evs1))"
    unfolding grow_tree_def c h by (simp add: a0_def)
  then have g: "grow_loop fuel S T d obs 1 0 a0 r0 [] = Some (Inr (a, r1, evs1))"
    by (auto split: option.splits sum.splits)
  have "grown d a0 0"
    unfolding a0_def by (rule grown_root)
  with assms(1) g show ?thesis by (rule grow_loop_grown)
qed

lemma grow_tree_split_ordering:
  assumes "writes_own_node T"
    and "grow_tree fuel S T d obs r smpls = Some (Inr ((a, held), r1, evs1))"
    and "internal a n"
  shows "n < left_child a n" and "right_child a n = Suc (left_child a n)"
    and "right_child a n < length (samples a)"
    and "below a (left_child a n) m \<Longrightarrow> s \<in> set (samples a ! m) \<Longrightarrow> feature_le d a n s"
    and "below a (right_child a n) m \<Longrightarrow> s \<in> set (samples a ! m) \<Longrightarrow> \<not> feature_le d a n s"
proof -
  from grow_tree_grown[OF assms(1,2)] obtain i where g: "grown d a i" ..
  show "n < left_child a n" and "right_child a n = Suc (left_child a n)"
    and "right_child a n < length (samples a)"
    using g assms(3) unfolding grown_def by blast+
  show "feature_le d a n s" if "below a (left_child a n) m" "s \<in> set (samples a ! m)"
    using g assms(3) that unfolding grown_def by blast
  show "\<not> feature_le d a n s" if "below a (right_child a n) m" "s \<in> set (samples a ! m)"
    using g assms(3) that unfolding grown_def by blast
qed

text \<open>
  Where no samples are held out, the tree \<^verbatim>\<open>train\<close> returns carries the arrays the
  loop left behind.
\<close>

lemma train_tree_of_arrays:
  assumes "train fuel S T ops d obs r smpls = Some (Inr (t, r', evs))"
    and "snd (fst (honesty_split S T r smpls)) = []"
  shows "\<exists>a r1 evs1.
           grow_tree fuel S T d obs r smpls = Some (Inr ((a, []), r1, evs1)) \<and>
           tree_child_nodes t = child_nodes a \<and> leaf_nodes t = samples a \<and>
           tree_split_vars t = split_vars a \<and> tree_split_values t = split_values a"
proof -
  from assms(1) obtain a held r1 evs1 where
    g: "grow_tree fuel S T d obs r smpls = Some (Inr ((a, held), r1, evs1))"
    by (auto simp: train_def split: option.splits sum.splits)
  with assms(1) obtain ev where
    f: "finish_tree T ops d obs a held = Inr (t, ev)"
    by (auto simp: train_def ebind_eq_Inr)
  have held: "held = []"
    using grow_tree_result[OF g] assms(2) by simp
  from f obtain pv where "t = tree_of_arrays a\<lparr>tree_prediction_values := pv\<rparr>"
    unfolding held finish_tree_def by (auto simp: ebind_eq_Inr)
  then have "tree_child_nodes t = child_nodes a \<and> leaf_nodes t = samples a \<and>
      tree_split_vars t = split_vars a \<and> tree_split_values t = split_values a"
    by (simp add: tree_of_arrays_def)
  with g held show ?thesis by blast
qed

text \<open>
  The example splitting rule writes only its own node. Training on the samples
  \<open>[0, 1, 2]\<close> of the example splits the root and its right child; on the data with a
  NaN cell it splits the root \<open>[0, 1]\<close> as on the data without.
\<close>

lemma ex_writes_own_node: "writes_own_node (ex_trainer dd h m)"
proof -
  have "\<exists>v x. snd (ex_find_best_split dd node vars resp smp svars svals) =
      (svars[node := v], svals[node := x])" for node vars resp smp svars svals
  proof (cases vars)
    case Nil
    have "(svars, svals) = (svars[node := svars ! node], svals[node := svals ! node])"
      by simp
    then show ?thesis
      unfolding ex_find_best_split_def Nil list.case snd_conv by blast
  next
    case (Cons v vs)
    show ?thesis
    proof (cases "smp ! node")
      case Nil
      have "(svars, svals) = (svars[node := svars ! node], svals[node := svals ! node])"
        by simp
      then show ?thesis
        unfolding ex_find_best_split_def Cons Nil list.case snd_conv by blast
    next
      case (Cons s ss)
      show ?thesis
        unfolding ex_find_best_split_def \<open>vars = v # vs\<close> Cons list.case snd_conv by blast
    qed
  qed
  then show ?thesis
    by (simp add: writes_own_node_def ex_trainer_def)
qed

lemma ex_internal3_0:
  "split_node_internal (ex_trainer ex_data False (Suc 0)) 0 ex_obs [0] [[0, Suc 0, 2]] [0] [Val 0] =
     Inr (False, [0], [Val 0], [CallRelabel 0, CallFindBestSplit 0])"
  by (simp add: split_node_internal_def ex_obs_def obs_get_def OUTCOME_def dne_def
      ex_trainer_def ex_options_def ex_relabel_def ex_find_best_split_def ex_data_def)

lemma ex_split3_0:
  "split_node ex_sampler (ex_trainer ex_data False 1) 0 ex_data ex_obs (ex_arrays [0, 1, 2]) [] () =
     Inr (False,
          \<lparr>child_nodes = [[1, 0, 0], [2, 0, 0]], samples = [[0, 1, 2], [0], [1, 2]],
           split_vars = [0, 0, 0], split_values = [Val 0, Val 0, Val 0]\<rparr>,
          (), [CallRelabel 0, CallFindBestSplit 0])"
proof -
  have o: "options (ex_trainer ex_data False 1) = ex_options False 1"
    by (simp add: ex_trainer_def)
  have c: "create_split_variable_subset ex_sampler (ex_options False 1) [] ex_data [] () = ([0], ())"
    by (rule ex_subset_one) (simp add: ex_data_def)
  have d: "dle (data_get ex_data 0 0) (Val 0)" "\<not> dle (data_get ex_data (Suc 0) 0) (Val 0)"
    "\<not> dle (data_get ex_data 2 0) (Val 0)"
    by (simp_all add: ex_data_def)
  show ?thesis
    unfolding split_node_def o c
    by (simp add: ex_arrays_def ex_internal3_0 upd2_def create_empty_node_def
        push_back_at_def d)
qed

lemma ex_internal3_2:
  "split_node_internal (ex_trainer ex_data False (Suc 0)) 2 ex_obs [0] [[], [0], [Suc 0, 2]]
     [0, 0, 0] [Val 0, Val (- 1), Val 0] =
     Inr (False, [0, 0, 0], [Val 0, Val (- 1), Val 1], [CallRelabel 2, CallFindBestSplit 2])"
  by (simp add: split_node_internal_def ex_obs_def obs_get_def OUTCOME_def dne_def
      ex_trainer_def ex_options_def ex_relabel_def ex_find_best_split_def ex_data_def)

lemma ex_split3_2:
  "split_node ex_sampler (ex_trainer ex_data False 1) 2 ex_data ex_obs
     \<lparr>child_nodes = [[1, 0, 0], [2, 0, 0]], samples = [[], [0], [1, 2]],
      split_vars = [0, 0, 0], split_values = [Val 0, Val (- 1), Val 0]\<rparr> [] () =
     Inr (False,
          \<lparr>child_nodes = [[1, 0, 3, 0, 0], [2, 0, 4, 0, 0]], samples = [[], [0], [1, 2], [1], [2]],
           split_vars = [0, 0, 0, 0, 0],
           split_values = [Val 0, Val (- 1), Val 1, Val 0, Val 0]\<rparr>,
          (), [CallRelabel 2, CallFindBestSplit 2])"
proof -
  have o: "options (ex_trainer ex_data False 1) = ex_options False 1"
    by (simp add: ex_trainer_def)
  have c: "create_split_variable_subset ex_sampler (ex_options False 1) [] ex_data [] () = ([0], ())"
    by (rule ex_subset_one) (simp add: ex_data_def)
  have d: "dle (data_get ex_data (Suc 0) 0) (Val 1)" "\<not> dle (data_get ex_data 2 0) (Val 1)"
    by (simp_all add: ex_data_def)
  show ?thesis
    unfolding split_node_def o c
    by (simp add: ex_internal3_2 upd2_def create_empty_node_def push_back_at_def d)
qed

lemma ex_grow3:
  "grow_loop 6 ex_sampler (ex_trainer ex_data False 1) ex_data ex_obs 1 0 (ex_arrays [0, 1, 2]) () [] =
     Some (Inr (ex_grown3, (),
       [CallRelabel 0, CallFindBestSplit 0, CallRelabel 2, CallFindBestSplit 2]))"
proof -
  define T where "T = ex_trainer ex_data False 1"
  define A0 where "A0 = ex_arrays [0, 1, 2]"
  define B0 where "B0 = \<lparr>child_nodes = [[1, 0, 0], [2, 0, 0]], samples = [[0, 1, 2], [0], [1, 2]],
           split_vars = [0, 0, 0], split_values = [Val 0, Val 0, Val 0]\<rparr>"
  define A1 where "A1 = B0\<lparr>samples := [[], [0], [1, 2]]\<rparr>"
  define A2 where "A2 = A1\<lparr>split_values := [Val 0, Val (- 1), Val 0]\<rparr>"
  define B2 where "B2 = \<lparr>child_nodes = [[1, 0, 3, 0, 0], [2, 0, 4, 0, 0]],
           samples = [[], [0], [1, 2], [1], [2]], split_vars = [0, 0, 0, 0, 0],
           split_values = [Val 0, Val (- 1), Val 1, Val 0, Val 0]\<rparr>"
  define A3 where "A3 = B2\<lparr>samples := [[], [0], [], [1], [2]]\<rparr>"
  define A4 where "A4 = A3\<lparr>split_values := [Val 0, Val (- 1), Val 1, Val (- 1), Val 0]\<rparr>"
  define E0 where "E0 = [CallRelabel 0, CallFindBestSplit 0]"
  define E2 where "E2 = [CallRelabel 2, CallFindBestSplit 2]"
  have w: "get_split_select_weights (options T) = []" "get_min_node_size (options T) = 1"
    by (simp_all add: T_def ex_trainer_def ex_options_def)
  have l0: "split_node ex_sampler T 0 ex_data ex_obs A0 (get_split_select_weights (options T)) () =
      Inr (False, B0, (), E0)"
    unfolding T_def A0_def B0_def E0_def w(1)[unfolded T_def] by (rule ex_split3_0)
  have u0: "upd (samples B0) 0 [] = Inr [[], [0], [1, 2]]"
    by (simp add: B0_def)
  have l1: "split_node ex_sampler T (Suc 0) ex_data ex_obs A1 (get_split_select_weights (options T)) () =
      Inr (True, A2, (), [])"
    by (subst split_node_leaf) (simp_all add: A1_def A2_def B0_def w)
  have A2_eq: "A2 = \<lparr>child_nodes = [[1, 0, 0], [2, 0, 0]], samples = [[], [0], [1, 2]],
      split_vars = [0, 0, 0], split_values = [Val 0, Val (- 1), Val 0]\<rparr>"
    by (simp add: A2_def A1_def B0_def)
  have l2: "split_node ex_sampler T (Suc (Suc 0)) ex_data ex_obs A2
      (get_split_select_weights (options T)) () = Inr (False, B2, (), E2)"
    unfolding T_def A2_eq B2_def E2_def w(1)[unfolded T_def]
    using ex_split3_2 by (simp add: numeral_2_eq_2)
  have u2: "upd (samples B2) (Suc (Suc 0)) [] = Inr [[], [0], [], [1], [2]]"
    by (simp add: B2_def)
  have l3: "split_node ex_sampler T (Suc (Suc (Suc 0))) ex_data ex_obs A3
      (get_split_select_weights (options T)) () = Inr (True, A4, (), [])"
    by (subst split_node_leaf) (simp_all add: A3_def A4_def B2_def w)
  have l4: "split_node ex_sampler T (Suc (Suc (Suc (Suc 0)))) ex_data ex_obs A4
      (get_split_select_weights (options T)) () = Inr (True, ex_grown3, (), [])"
    by (subst split_node_leaf) (simp_all add: A3_def A4_def B2_def w ex_grown3_def)
  have "grow_loop (Suc (Suc (Suc (Suc (Suc (Suc 0)))))) ex_sampler T ex_data ex_obs (Suc 0) 0 A0 () [] =
      grow_loop (Suc (Suc (Suc (Suc (Suc 0))))) ex_sampler T ex_data ex_obs (Suc (Suc 0)) (Suc 0) A1 ()
        ([] @ E0)"
    unfolding A1_def using l0 u0 by (rule grow_loop_split_step)
  also have "\<dots> = grow_loop (Suc (Suc (Suc (Suc 0)))) ex_sampler T ex_data ex_obs (Suc 0) (Suc (Suc 0)) A2 ()
      (([] @ E0) @ [])"
    using l1 by (rule grow_loop_leaf_step)
  also have "\<dots> = grow_loop (Suc (Suc (Suc 0))) ex_sampler T ex_data ex_obs (Suc (Suc 0))
      (Suc (Suc (Suc 0))) A3 () ((([] @ E0) @ []) @ E2)"
    unfolding A3_def using l2 u2 by (rule grow_loop_split_step)
  also have "\<dots> = grow_loop (Suc (Suc 0)) ex_sampler T ex_data ex_obs (Suc 0)
      (Suc (Suc (Suc (Suc 0)))) A4 () (((([] @ E0) @ []) @ E2) @ [])"
    using l3 by (rule grow_loop_leaf_step)
  also have "\<dots> = grow_loop (Suc 0) ex_sampler T ex_data ex_obs 0
      (Suc (Suc (Suc (Suc (Suc 0))))) ex_grown3 () ((((([] @ E0) @ []) @ E2) @ []) @ [])"
    using l4 by (rule grow_loop_leaf_step)
  also have "\<dots> = Some (Inr (ex_grown3, (), (((([] @ E0) @ []) @ E2) @ []) @ []))"
    by (rule grow_loop_done)
  finally have r: "grow_loop (Suc (Suc (Suc (Suc (Suc (Suc 0)))))) ex_sampler T ex_data ex_obs (Suc 0) 0 A0 () [] =
      Some (Inr (ex_grown3, (), E0 @ E2))"
    by simp
  have n6: "(6::nat) = Suc (Suc (Suc (Suc (Suc (Suc 0)))))"
    by simp
  have "grow_loop 6 ex_sampler T ex_data ex_obs 1 0 A0 () [] = Some (Inr (ex_grown3, (), E0 @ E2))"
    unfolding n6 One_nat_def by (rule r)
  then show ?thesis
    unfolding T_def A0_def E0_def E2_def by simp
qed

lemma ex_grow_tree3:
  "grow_tree 6 ex_sampler (ex_trainer ex_data False 1) ex_data ex_obs () [0, 1, 2] =
     Some (Inr ((ex_grown3, []), (),
       [CallRelabel 0, CallFindBestSplit 0, CallRelabel 2, CallFindBestSplit 2]))"
proof -
  have h: "honesty_split ex_sampler (ex_trainer ex_data False 1) () [0, 1, 2] = (([0, 1, 2], []), ())"
    by (simp add: honesty_split_def ex_trainer_def ex_options_def)
  have u: "upd (samples (ex_arrays [])) 0 [0, 1, 2] = Inr [[0, 1, 2]]"
    by (simp add: ex_arrays_def)
  have a: "ex_arrays []\<lparr>samples := [[0, 1, 2]]\<rparr> = ex_arrays [0, 1, 2]"
    by (simp add: ex_arrays_def)
  show ?thesis
    unfolding grow_tree_def create_empty_node_initial h sum.case prod.case u a ex_grow3 option.case
    by (rule refl)
qed

lemma ex_grown3_nodes:
  "internal ex_grown3 0" "internal ex_grown3 2"
  "left_child ex_grown3 0 = 1" "right_child ex_grown3 0 = 2" "right_child ex_grown3 2 = 4"
  by (simp_all add: internal_def ex_grown3_def left_child_def right_child_def)

lemma ex_grown3_below:
  "below ex_grown3 (left_child ex_grown3 0) 1" "below ex_grown3 (right_child ex_grown3 0) 4"
proof -
  show "below ex_grown3 (left_child ex_grown3 0) 1"
    unfolding ex_grown3_nodes(3) by (rule below.below_self)
  have "below ex_grown3 2 2"
    by (rule below.below_self)
  then have "below ex_grown3 2 (right_child ex_grown3 2)"
    using ex_grown3_nodes(2) by (rule below.below_right)
  then show "below ex_grown3 (right_child ex_grown3 0) 4"
    unfolding ex_grown3_nodes(4,5) .
qed

lemma ex_grown3_samples:
  "0 \<in> set (samples ex_grown3 ! 1)" "2 \<in> set (samples ex_grown3 ! 4)"
  by (simp_all add: ex_grown3_def)

lemma ex_grow_tree_nan:
  "grow_tree 4 ex_sampler (ex_trainer nan_data False 1) nan_data ex_obs () [0, 1] =
     Some (Inr ((ex_grown, []), (), [CallRelabel 0, CallFindBestSplit 0]))"
proof -
  have h: "honesty_split ex_sampler (ex_trainer nan_data False 1) () [0, 1] = (([0, 1], []), ())"
    by (simp add: honesty_split_def ex_trainer_def ex_options_def)
  have u: "upd (samples (ex_arrays [])) 0 [0, 1] = Inr [[0, 1]]"
    by (simp add: ex_arrays_def)
  have a: "ex_arrays []\<lparr>samples := [[0, 1]]\<rparr> = ex_arrays [0, 1]"
    by (simp add: ex_arrays_def)
  show ?thesis
    unfolding grow_tree_def create_empty_node_initial h sum.case prod.case u a
      ex_grow_from_split[OF ex_split_nan] option.case
    by (rule refl)
qed




section \<open>Variance of the regression strategy\<close>

lemma upt_2: "[0..<2] = [0, Suc 0]"
  by (simp add: numeral_2_eq_2)

lemma ex_pv_empty: "i < 4 \<Longrightarrow> pv_empty ex_leaf_values i = Inr False"
  by (simp add: pv_empty_def vec_at_def ex_leaf_values_def nth_Cons split: nat.split)

lemma ex_good_group_0: "good_group ex_leaf_values 0 2 = Inr True"
  by (simp add: good_group_def upt_2 ex_pv_empty)

lemma ex_good_group_2: "good_group ex_leaf_values 2 2 = Inr True"
  by (simp add: good_group_def upt_2 ex_pv_empty)

lemma ex_pv_get:
  "pv_get ex_leaf_values 0 OUTCOME = Inr [[Val 1]]"
  "pv_get ex_leaf_values (Suc 0) OUTCOME = Inr [[Val 1]]"
  "pv_get ex_leaf_values (Suc (Suc 0)) OUTCOME = Inr [[Val (- 1)]]"
  "pv_get ex_leaf_values (Suc (Suc (Suc 0))) OUTCOME = Inr [[Val (- 1)]]"
  by (simp_all add: pv_get_def vec_at_def ex_leaf_values_def OUTCOME_def)

lemma ex_group_sums_0: "group_sums ex_leaf_values 0 2 (Val 0) (Val 0) = Inr (Val 2, Val 2)"
  by (simp add: group_sums_def upt_2 ex_pv_get mat_coeff_def dsub_def Let_def)

lemma ex_group_sums_2: "group_sums ex_leaf_values 2 2 (Val 0) (Val 2) = Inr (Val 4, Val (- 2))"
  by (simp add: group_sums_def upt_2 ex_pv_get mat_coeff_def dsub_def Let_def)

lemma ex_group_step_0:
  "group_step ex_leaf_values 2 (Val 0) 0
     \<lparr>num_good_groups = Val 0, psi_squared = Val 0, psi_grouped_squared = Val 0\<rparr> =
   Inr \<lparr>num_good_groups = Val 1, psi_squared = Val 2, psi_grouped_squared = Val 1\<rparr>"
  by (simp add: group_step_def ex_good_group_0 ex_group_sums_0 double_of_nat_def Let_def)

lemma ex_group_step_1:
  "group_step ex_leaf_values 2 (Val 0) (Suc 0)
     \<lparr>num_good_groups = Val 1, psi_squared = Val 2, psi_grouped_squared = Val 1\<rparr> = Inr ex_sums"
  by (simp add: group_step_def ex_good_group_2 ex_group_sums_2 double_of_nat_def ex_sums_def Let_def)

lemma ex_compute_sums: "compute_sums ex_leaf_values 2 (Val 0) = Inr ex_sums"
proof -
  have n: "pv_num_nodes ex_leaf_values div unat (2::uint) = 2"
    by (simp add: ex_leaf_values_def)
  show ?thesis
    unfolding compute_sums_def n upt_2
    by (simp add: ex_group_step_0 ex_group_step_1)
qed

text \<open>
  C2. For \<^verbatim>\<open>ci_group_size = 2\<close>, the leaf summaries \<open>1, 1\<close> and \<open>-1, -1\<close> and the
  average outcome \<open>0\<close>, both groups are good, and \<^verbatim>\<open>compute_variance\<close> computes
  \<open>psi_squared = 4\<close>, \<open>psi_grouped_squared = 2\<close>, \<open>num_good_groups = 2\<close>,
  \<open>var_between = 1\<close>, \<open>var_total = 1\<close> and \<open>group_noise = 0\<close>, and returns the
  debiaser's value at \<open>(1, 0, 2)\<close>.
\<close>

theorem C2_group_variance:
  "compute_sums ex_leaf_values 2 (Val 0) = Inr ex_sums \<and>
   psi_squared ex_sums = Val 4 \<and>
   psi_grouped_squared ex_sums = Val 2 \<and>
   num_good_groups ex_sums = Val 2 \<and>
   var_between ex_sums = Val 1 \<and>
   var_total ex_sums 2 = Val 1 \<and>
   group_noise ex_sums 2 = Val 0 \<and>
   compute_variance debias ex_average ex_leaf_values 2 =
     Inr [debias (Val 1) (Val 0) (Val 2)]"
proof -
  have vb: "var_between ex_sums = Val 1"
    by (simp add: var_between_def ex_sums_def)
  have vt: "var_total ex_sums 2 = Val 1"
    by (simp add: var_total_def ex_sums_def double_of_nat_def)
  have gn: "group_noise ex_sums 2 = Val 0"
    unfolding group_noise_def vb vt by (simp add: dsub_def double_of_nat_def)
  have cv: "compute_variance debias ex_average ex_leaf_values 2 =
     Inr [debias (Val 1) (Val 0) (Val 2)]"
    unfolding compute_variance_def
    by (simp add: ex_average_def vec_at_def OUTCOME_def mat_coeff_def ex_compute_sums vb vt gn
        vec_constant_def Let_def) (simp add: ex_sums_def)
  show ?thesis
    using ex_compute_sums vb vt gn cv by (simp add: ex_sums_def)
qed

section \<open>Leaf summaries of the regression strategy\<close>

text \<open>
  The accumulator of \<^verbatim>\<open>precompute_prediction_values\<close> has four columns and the
  outcome vector added to it has one: the addition never meets Eigen's size requirement,
  whatever the observations are.
\<close>

lemma ncols_col_matrix: "ncols (col_matrix v) \<le> 1"
  by (cases v) (simp_all add: ncols_def col_matrix_def)

lemma add_assign_zero_1_4: "mat_add_assign (mat_zero 1 4) (col_matrix v) = Inl Undefined"
proof -
  have "ncols (mat_zero 1 4) = 4"
    by (simp add: ncols_def mat_zero_def)
  with ncols_col_matrix[of v] show ?thesis
    by (simp add: mat_add_assign_def)
qed

lemma leaf_average_fails:
  "leaf_node \<noteq> [] \<Longrightarrow> leaf_average obs leaf_node = Inl Undefined"
proof (cases leaf_node)
  case Nil
  then show "leaf_node \<noteq> [] \<Longrightarrow> ?thesis" by simp
next
  case (Cons s ss)
  have "ebind (obs_get obs OUTCOME s) (\<lambda>v. mat_add_assign (mat_zero 1 4) (col_matrix v)) =
      Inl Undefined"
  proof (cases "obs_get obs OUTCOME s")
    case (Inl e)
    then have "e = Undefined"
      by (auto simp: obs_get_def idx_def split: if_splits)
    with Inl show ?thesis by simp
  next
    case (Inr v)
    then show ?thesis
      unfolding Inr ebind.simps by (simp only: add_assign_zero_1_4)
  qed
  then show ?thesis
    by (simp add: leaf_average_def Cons)
qed

text \<open>
  C3. On the ten outcomes and the single leaf holding all ten samples,
  \<^verbatim>\<open>precompute_prediction_values\<close> does not yield a \<open>1 \<times> 1\<close> matrix holding the
  mean: the first \<^verbatim>\<open>average += observations.get(...)\<close> adds a vector of length one
  to the \<open>1 \<times> 4\<close> accumulator.
\<close>

theorem C3_leaf_mean_not_computed:
  "precompute_prediction_values [[0, 1, 2, 3, 4, 5, 6, 7, 8, 9]] ex_outcomes = Inl Undefined"
  by (simp add: precompute_prediction_values_def vec_at_def leaf_average_fails)

text \<open>\<^verbatim>\<open>compute_variance\<close> returns \<^verbatim>\<open>Constant(1, var_debiased)\<close>.\<close>

lemma compute_variance_length:
  "compute_variance debias average leaf_values ci = Inr v \<Longrightarrow> length v = 1"
  by (auto simp: compute_variance_def ebind_eq_Inr vec_constant_def Let_def)

text \<open>
  C4. On the input of C2 \<^verbatim>\<open>compute_variance\<close> returns a vector of length \<open>1\<close>,
  while \<^verbatim>\<open>prediction_length()\<close> is \<open>4\<close>.
\<close>

theorem C4_variance_length_differs:
  "compute_variance debias ex_average ex_leaf_values 2 = Inr [debias (Val 1) (Val 0) (Val 2)] \<and>
   length [debias (Val 1) (Val 0) (Val 2)] = 1 \<and>
   prediction_length = 4"
proof -
  have "compute_variance debias ex_average ex_leaf_values 2 = Inr [debias (Val 1) (Val 0) (Val 2)]"
    unfolding compute_variance_def
    by (simp add: ex_average_def vec_at_def OUTCOME_def mat_coeff_def ex_compute_sums
        vec_constant_def Let_def var_between_def group_noise_def var_total_def dsub_def
        double_of_nat_def ex_sums_def)
  then show ?thesis
    by (simp add: prediction_length_def)
qed

section \<open>Collected predictions\<close>

text \<open>
  A tree that is masked out, or whose leaf for the row has no summary, leaves the state of
  the loop over the trees as it is.
\<close>

lemma visit_tree_skip:
  assumes "tree_included tbs sample t = Inr False \<or>
           (tree_included tbs sample t = Inr True \<and> leaf_summary_empty f lnbt sample t = Inr True)"
  shows "visit_tree ci f lnbt tbs sample t st = Inr st"
proof -
  obtain n av lv where st: "st = (n, av, lv)"
    by (cases st) auto
  from assms show ?thesis
  proof
    assume "tree_included tbs sample t = Inr False"
    then show ?thesis
      by (simp add: visit_tree_def st)
  next
    assume a: "tree_included tbs sample t = Inr True \<and> leaf_summary_empty f lnbt sample t = Inr True"
    then obtain ln node tr where
      "vec_at lnbt t = Inr ln" "vec_at ln sample = Inr node" "idx (get_trees f) t = Inr tr"
      "pv_empty (tree_prediction_values tr) node = Inr True"
      unfolding leaf_summary_empty_def ebind_eq_Inr by blast
    with a show ?thesis
      by (simp add: visit_tree_def st del: idx_Inr)
  qed
qed

lemma efold_visit_skip:
  assumes "\<forall>t\<in>set ts. tree_included tbs sample t = Inr False \<or>
           (tree_included tbs sample t = Inr True \<and> leaf_summary_empty f lnbt sample t = Inr True)"
  shows "efold (visit_tree ci f lnbt tbs sample) ts st = Inr st"
  using assms
proof (induction ts)
  case Nil
  then show ?case by simp
next
  case (Cons t ts)
  then show ?case by (simp add: visit_tree_skip)
qed

text \<open>
  When \<^verbatim>\<open>collect_predictions\<close> returns, it returns one prediction per query row, in
  order, each the result of the loop body for its row.
\<close>

lemma efold_collect:
  assumes "efold (\<lambda>x ps. ebind (g x) (\<lambda>p. Inr (ps @ [p]))) xs acc = Inr ps"
  shows "\<exists>qs. ps = acc @ qs \<and> length qs = length xs \<and> (\<forall>i<length xs. g (xs ! i) = Inr (qs ! i))"
  using assms
proof (induction xs arbitrary: acc)
  case Nil
  then show ?case by simp
next
  case (Cons x xs)
  from Cons.prems obtain p where
    p: "g x = Inr p"
    and r: "efold (\<lambda>x ps. ebind (g x) (\<lambda>p. Inr (ps @ [p]))) xs (acc @ [p]) = Inr ps"
    by (auto simp: ebind_eq_Inr)
  from Cons.IH[OF r] obtain qs where
    qs: "ps = (acc @ [p]) @ qs" "length qs = length xs" "\<forall>i<length xs. g (xs ! i) = Inr (qs ! i)"
    by blast
  have "\<forall>i<length (x # xs). g ((x # xs) ! i) = Inr ((p # qs) ! i)"
    using p qs(3) by (auto simp: nth_Cons split: nat.split)
  with qs(1,2) show ?case
    by (intro exI[of _ "p # qs"]) simp
qed

lemma collect_predictions_rows:
  assumes "collect_predictions S ci f d lnbt tbs = Inr ps"
  shows "length ps = get_num_rows d \<and>
         (\<forall>sample<get_num_rows d. predict_row S ci f lnbt tbs sample = Inr (ps ! sample))"
proof -
  from efold_collect[OF assms[unfolded collect_predictions_def]]
  obtain qs where "ps = [] @ qs" "length qs = length [0..<get_num_rows d]"
    "\<forall>i<length [0..<get_num_rows d].
       predict_row S ci f lnbt tbs ([0..<get_num_rows d] ! i) = Inr (qs ! i)"
    by blast
  then show ?thesis by simp
qed

lemma predict_row_length:
  assumes "predict_row S ci f lnbt tbs sample = Inr p"
  shows "length (predictions p) = strategy_prediction_length S"
proof -
  from assms obtain st where
    e: "efold (visit_tree ci f lnbt tbs sample) [0..<length (get_trees f)]
          (0, [], if 1 < ci then replicate (length (get_trees f)) [] else []) = Inr st" and
    r: "(case st of (num_leaves, average_value, leaf_values) \<Rightarrow>
          if num_leaves = 0 then
            Inr \<lparr>predictions = vec_constant (strategy_prediction_length S) NaN,
                 variance_estimates = []\<rparr>
          else
            ebind (strategy_predict S
                     (normalize_prediction_values (unat num_leaves) average_value))
              (\<lambda>point_prediction.
            ebind (if ci > 1 then
                     strategy_compute_variance S
                       (normalize_prediction_values (unat num_leaves) average_value)
                       \<lparr>pv_values = leaf_values, pv_num_nodes = length (get_trees f),
                        pv_num_types = strategy_prediction_value_length S\<rparr> ci
                   else Inr []) (\<lambda>variance_estimate.
              ebind (validate_prediction S sample
                       \<lparr>predictions = point_prediction,
                        variance_estimates = variance_estimate\<rparr>)
                (\<lambda>_. Inr \<lparr>predictions = point_prediction,
                           variance_estimates = variance_estimate\<rparr>)))) = Inr p"
    unfolding predict_row_def Let_def ebind_eq_Inr by (elim exE conjE) (rule that)
  obtain n av lv where st: "st = (n, av, lv)"
    by (cases st) auto
  show ?thesis
  proof (cases "n = 0")
    case True
    with r st show ?thesis by (auto simp: vec_constant_def)
  next
    case False
    with r st obtain pp ve where
      "p = \<lparr>predictions = pp, variance_estimates = ve\<rparr>"
      "validate_prediction S sample \<lparr>predictions = pp, variance_estimates = ve\<rparr> = Inr ()"
      by (auto simp: ebind_eq_Inr)
    then show ?thesis
      by (auto simp: validate_prediction_def prediction_size_def split: if_splits)
  qed
qed

text \<open>
  C9. \<^verbatim>\<open>validate_prediction\<close> throws if and only if the length of the point vector
  differs from \<^verbatim>\<open>prediction_length()\<close>, and returns otherwise. Every prediction that
  \<^verbatim>\<open>collect_predictions\<close> returns has a point vector of that length: the ones of the
  non-empty branch because they passed the validation, the placeholders by construction.
\<close>

theorem C9_validated_length:
  "(validate_prediction S sample p = Inl RuntimeError \<longleftrightarrow>
      length (predictions p) \<noteq> strategy_prediction_length S) \<and>
   (validate_prediction S sample p = Inr () \<longleftrightarrow>
      length (predictions p) = strategy_prediction_length S) \<and>
   (collect_predictions S ci f d lnbt tbs = Inr ps \<longrightarrow>
      length ps = get_num_rows d \<and>
      (\<forall>q\<in>set ps. length (predictions q) = strategy_prediction_length S))"
proof -
  have v: "(validate_prediction S sample p = Inl RuntimeError \<longleftrightarrow>
      length (predictions p) \<noteq> strategy_prediction_length S) \<and>
   (validate_prediction S sample p = Inr () \<longleftrightarrow>
      length (predictions p) = strategy_prediction_length S)"
    by (simp add: validate_prediction_def prediction_size_def)
  have c: "length ps = get_num_rows d \<and>
      (\<forall>q\<in>set ps. length (predictions q) = strategy_prediction_length S)"
    if a: "collect_predictions S ci f d lnbt tbs = Inr ps"
  proof -
    note rows = collect_predictions_rows[OF a]
    have "length (predictions q) = strategy_prediction_length S" if "q \<in> set ps" for q
    proof -
      from that obtain i where "i < length ps" "q = ps ! i"
        by (auto simp: in_set_conv_nth)
      with rows have "predict_row S ci f lnbt tbs i = Inr q" by simp
      then show ?thesis by (rule predict_row_length)
    qed
    with rows show ?thesis by blast
  qed
  from v c show ?thesis by blast
qed

text \<open>
  C5. If for a query row every tree is either excluded by the mask or sends the row to a
  leaf without summary, the loop body returns, without error, the prediction whose point
  vector has length \<^verbatim>\<open>prediction_length()\<close> and only NaN entries and whose variance
  vector is empty; when \<^verbatim>\<open>collect_predictions\<close> returns, that is its prediction for
  the row.
\<close>

theorem C5_empty_prediction:
  assumes "\<forall>t<length (get_trees f).
             tree_included tbs sample t = Inr False \<or>
             (tree_included tbs sample t = Inr True \<and>
              leaf_summary_empty f lnbt sample t = Inr True)"
  shows "predict_row S ci f lnbt tbs sample = Inr (nan_prediction S) \<and>
         length (predictions (nan_prediction S)) = strategy_prediction_length S \<and>
         (\<forall>x\<in>set (predictions (nan_prediction S)). x = NaN) \<and>
         variance_estimates (nan_prediction S) = [] \<and>
         (collect_predictions S ci f d lnbt tbs = Inr ps \<and> sample < get_num_rows d \<longrightarrow>
            ps ! sample = nan_prediction S)"
proof -
  have "efold (visit_tree ci f lnbt tbs sample) [0..<length (get_trees f)]
          (0, [], if ci > 1 then replicate (length (get_trees f)) [] else []) =
        Inr (0, [], if ci > 1 then replicate (length (get_trees f)) [] else [])"
    using assms by (intro efold_visit_skip) simp
  then have r: "predict_row S ci f lnbt tbs sample = Inr (nan_prediction S)"
    by (simp add: predict_row_def Let_def nan_prediction_def vec_constant_def)
  have "ps ! sample = nan_prediction S"
    if "collect_predictions S ci f d lnbt tbs = Inr ps" "sample < get_num_rows d"
    using collect_predictions_rows[OF that(1)] that(2) r by simp
  with r show ?thesis
    by (auto simp: nan_prediction_def)
qed

text \<open>
  The example query: the first row gets the summary of its leaf, the second row, masked
  out of the only tree, gets the placeholder.
\<close>

lemma ex_masked:
  "\<forall>t<length (get_trees ex_forest).
     tree_included ex_mask 1 t = Inr False \<or>
     (tree_included ex_mask 1 t = Inr True \<and>
      leaf_summary_empty ex_forest ex_leaf_nodes 1 t = Inr True)"
  by (simp add: ex_forest_def tree_included_def ex_mask_def)

lemma ex_add:
  "add_prediction_values (Suc 0)
     \<lparr>pv_values = [[], [[[Val 1]]], [[[Val 3]]]], pv_num_nodes = 3, pv_num_types = Suc 0\<rparr> [] =
   Inr [[[Val 1]]]"
  by (simp add: add_prediction_values_def pv_get_def vec_at_def mat_zero_def nrows_def ncols_def
      mat_add_assign_def)

lemma ex_row_0:
  "predict_row ex_strategy 1 ex_forest ex_leaf_nodes ex_mask 0 =
     Inr \<lparr>predictions = [Val 1], variance_estimates = []\<rparr>"
proof -
  have v: "visit_tree 1 ex_forest ex_leaf_nodes ex_mask 0 0 (0, [], []) =
      Inr (1, [[[Val 1]]], [])"
    by (simp add: visit_tree_def tree_included_def vec_at_def ex_forest_def pv_empty_def ex_add
        ex_mask_def ex_leaf_nodes_def)
  have n: "length (get_trees ex_forest) = Suc 0"
    by (simp add: ex_forest_def)
  show ?thesis
    unfolding predict_row_def n
    by (simp add: v normalize_prediction_values_def mat_div_scalar_def double_of_nat_def
        ex_strategy_def vec_at_def validate_prediction_def prediction_size_def)
qed

lemma ex_row_1:
  "predict_row ex_strategy 1 ex_forest ex_leaf_nodes ex_mask (Suc 0) =
     Inr \<lparr>predictions = [NaN], variance_estimates = []\<rparr>"
proof -
  have v: "visit_tree 1 ex_forest ex_leaf_nodes ex_mask (Suc 0) 0 (0, [], []) =
      Inr (0, [], [])"
    by (simp add: visit_tree_def tree_included_def ex_mask_def)
  have n: "length (get_trees ex_forest) = Suc 0"
    by (simp add: ex_forest_def)
  show ?thesis
    unfolding predict_row_def n
    by (simp add: v ex_strategy_def vec_constant_def)
qed

lemma ex_collect:
  "collect_predictions ex_strategy 1 ex_forest ex_query ex_leaf_nodes ex_mask =
     Inr ex_predictions"
proof -
  have n: "[0..<get_num_rows ex_query] = [0, Suc 0]"
    by (simp add: ex_query_def upt_2)
  show ?thesis
    unfolding collect_predictions_def n
    by (simp add: ex_row_0 ex_row_1 ex_predictions_def)
qed

theorem C9_witness:
  "collect_predictions ex_strategy 1 ex_forest ex_query ex_leaf_nodes ex_mask =
     Inr ex_predictions \<and>
   length ex_predictions = get_num_rows ex_query \<and>
   length (predictions (ex_predictions ! 0)) = strategy_prediction_length ex_strategy \<and>
   length (predictions (ex_predictions ! 1)) = strategy_prediction_length ex_strategy \<and>
   validate_prediction ex_strategy 0 (ex_predictions ! 0) = Inr ()"
proof -
  have m: "ex_predictions ! 0 \<in> set ex_predictions" "ex_predictions ! 1 \<in> set ex_predictions"
    by (simp_all add: ex_predictions_def)
  from C9_validated_length [of ex_strategy 0 "ex_predictions ! 0" 1 ex_forest ex_query
      ex_leaf_nodes ex_mask ex_predictions] ex_collect m
  show ?thesis by blast
qed

theorem C5_witness:
  "predict_row ex_strategy 1 ex_forest ex_leaf_nodes ex_mask 1 =
     Inr (nan_prediction ex_strategy) \<and>
   predictions (nan_prediction ex_strategy) = [NaN] \<and>
   variance_estimates (nan_prediction ex_strategy) = [] \<and>
   collect_predictions ex_strategy 1 ex_forest ex_query ex_leaf_nodes ex_mask =
     Inr ex_predictions \<and>
   ex_predictions ! 1 = nan_prediction ex_strategy"
proof -
  have r: "(1::nat) < get_num_rows ex_query"
    by (simp add: ex_query_def)
  have p: "predictions (nan_prediction ex_strategy) = [NaN]"
    by (simp add: nan_prediction_def ex_strategy_def)
  from C5_empty_prediction [OF ex_masked, of ex_strategy 1 ex_query ex_predictions] ex_collect r p
  show ?thesis by blast
qed

end
